theory Spec2Isabelle
  imports Complex_Main "HOL-Library.Multiset"
begin

section \<open>C values used by the statistics engine\<close>

text \<open>
  The benchmark programs compute with C \<open>double\<close> and \<open>int\<close>. A finite \<open>double\<close> is
  modelled by a real number (rounding is not modelled); the non-finite results of IEEE
  arithmetic are kept as separate values, so that a division by zero is visible in the
  model instead of being HOL's \<open>x / 0 = 0\<close>. A C \<open>int\<close> is modelled by an unbounded
  integer: with a sample count below \<open>10^9\<close> no expression of the programs leaves the
  32-bit range. Reading an array outside its bounds is undefined behaviour in C; the model
  reports it as the error \<open>OutOfBounds\<close>.
\<close>

datatype error = OutOfBounds

datatype double = Num real | PInf | NInf | NaN

fun dneg :: "double \<Rightarrow> double" where
  "dneg (Num a) = Num (- a)"
| "dneg PInf = NInf"
| "dneg NInf = PInf"
| "dneg NaN = NaN"

fun dadd :: "double \<Rightarrow> double \<Rightarrow> double" where
  "dadd (Num a) (Num b) = Num (a + b)"
| "dadd NaN y = NaN"
| "dadd x NaN = NaN"
| "dadd PInf NInf = NaN"
| "dadd NInf PInf = NaN"
| "dadd PInf y = PInf"
| "dadd x PInf = PInf"
| "dadd NInf y = NInf"
| "dadd x NInf = NInf"

definition dsub :: "double \<Rightarrow> double \<Rightarrow> double" where
  "dsub x y = dadd x (dneg y)"

fun dmul :: "double \<Rightarrow> double \<Rightarrow> double" where
  "dmul (Num a) (Num b) = Num (a * b)"
| "dmul NaN y = NaN"
| "dmul x NaN = NaN"
| "dmul (Num a) PInf = (if a = 0 then NaN else if 0 < a then PInf else NInf)"
| "dmul (Num a) NInf = (if a = 0 then NaN else if 0 < a then NInf else PInf)"
| "dmul PInf (Num b) = (if b = 0 then NaN else if 0 < b then PInf else NInf)"
| "dmul NInf (Num b) = (if b = 0 then NaN else if 0 < b then NInf else PInf)"
| "dmul PInf PInf = PInf"
| "dmul NInf NInf = PInf"
| "dmul PInf NInf = NInf"
| "dmul NInf PInf = NInf"

text \<open>
  Division of a \<open>double\<close> by a \<open>double\<close>. A zero divisor is the positive zero here (it
  comes from converting the \<open>int\<close> 0), so \<open>0.0 / 0\<close> is NaN and \<open>x / 0\<close> is an infinity
  with the sign of \<open>x\<close>.
\<close>

fun ddiv :: "double \<Rightarrow> double \<Rightarrow> double" where
  "ddiv (Num a) (Num b) =
     (if b \<noteq> 0 then Num (a / b)
      else if a = 0 then NaN else if 0 < a then PInf else NInf)"
| "ddiv NaN y = NaN"
| "ddiv x NaN = NaN"
| "ddiv (Num a) y = Num 0"
| "ddiv PInf (Num b) = (if 0 \<le> b then PInf else NInf)"
| "ddiv NInf (Num b) = (if 0 \<le> b then NInf else PInf)"
| "ddiv x y = NaN"

fun dsqrt :: "double \<Rightarrow> double" where
  "dsqrt (Num a) = (if 0 \<le> a then Num (sqrt a) else NaN)"
| "dsqrt PInf = PInf"
| "dsqrt NInf = NaN"
| "dsqrt NaN = NaN"

text \<open>The cast \<open>(int) x\<close> of a \<open>double\<close> truncates toward zero.\<close>

definition trunc :: "real \<Rightarrow> int" where
  "trunc x = (if 0 \<le> x then \<lfloor>x\<rfloor> else \<lceil>x\<rceil>)"

text \<open>C's \<open>/\<close> on \<open>int\<close> truncates toward zero (HOL's \<open>div\<close> rounds down).\<close>

definition cdiv :: "int \<Rightarrow> int \<Rightarrow> int" where
  "cdiv a b = sgn a * sgn b * (\<bar>a\<bar> div \<bar>b\<bar>)"

text \<open>\<open>a[i]\<close> for an \<open>int\<close> index.\<close>

definition read :: "'a list \<Rightarrow> int \<Rightarrow> error + 'a" where
  "read a i = (if 0 \<le> i \<and> i < int (length a) then Inr (a ! nat i) else Inl OutOfBounds)"

section \<open>\<open>calculate_statistics\<close>\<close>

text \<open>
  The configuration macros of every benchmark program:
  \<^verbatim>\<open>#define IGNORE_PERCENTAGE 0.2\<close> and \<^verbatim>\<open>#define IQR_MULTIPLIER 1.5\<close>.
  The \<open>double\<close> nearest to 0.2 is slightly above one fifth; the product
  \<open>num_runs * IGNORE_PERCENTAGE\<close> truncates to \<open>num_runs div 5\<close> with either value.
\<close>

definition IGNORE_PERCENTAGE :: real where
  "IGNORE_PERCENTAGE = 0.2"

definition IQR_MULTIPLIER :: real where
  "IQR_MULTIPLIER = 1.5"

text \<open>
  The sort of \<open>calculate_statistics\<close>, on the local copy of the samples:
  \<^verbatim>\<open>
  for (int i = 0; i < num_runs - 1; i++)
      for (int j = i + 1; j < num_runs; j++)
          if (sorted_times[i] > sorted_times[j]) { swap sorted_times[i], sorted_times[j] }
  \<close>
  The indices are natural numbers here; \<open>i < num_runs - 1\<close> on \<open>int\<close> is \<open>i + 1 < n\<close>.
\<close>

function sort_inner :: "'a::linorder list \<Rightarrow> nat \<Rightarrow> nat \<Rightarrow> nat \<Rightarrow> 'a list" where
  "sort_inner a i j n =
     (if j < n
      then sort_inner (if a ! i > a ! j then a[i := a ! j, j := a ! i] else a) i (j + 1) n
      else a)"
  by pat_completeness auto
termination
  by (relation "measure (\<lambda>(a, i, j, n). n - j)") auto

function sort_outer :: "'a::linorder list \<Rightarrow> nat \<Rightarrow> nat \<Rightarrow> 'a list" where
  "sort_outer a i n =
     (if i + 1 < n then sort_outer (sort_inner a i (i + 1) n) (i + 1) n else a)"
  by pat_completeness auto
termination
  by (relation "measure (\<lambda>(a, i, n). n - i)") auto


text \<open>
  The three loops over the middle window have the same shape:
  \<^verbatim>\<open>
  for (int i = ignore_runs; i < num_runs - ignore_runs; i++)
      if (sorted_times[i] >= q1 - IQR_MULTIPLIER * iqr && sorted_times[i] <= q3 + IQR_MULTIPLIER * iqr)
          acc = body(acc, sorted_times[i]);
  \<close>
  \<open>conv\<close> is the conversion of an array element to \<open>double\<close> (the identity for the
  \<open>double\<close> samples of the timing programs, \<open>unsigned long long\<close> to \<open>double\<close> for the
  cycle counts); \<open>lo\<close> and \<open>hi\<close> are the two bounds of the condition.
\<close>

function window_loop ::
  "('b \<Rightarrow> real \<Rightarrow> 'b) \<Rightarrow> ('a \<Rightarrow> real) \<Rightarrow> 'a list \<Rightarrow> real \<Rightarrow> real \<Rightarrow> int \<Rightarrow> int \<Rightarrow> 'b \<Rightarrow> error + 'b"
where
  "window_loop body conv a lo hi i stop acc =
     (if i < stop
      then (case read a i of
              Inl e \<Rightarrow> Inl e
            | Inr x \<Rightarrow>
                window_loop body conv a lo hi (i + 1) stop
                  (if conv x \<ge> lo \<and> conv x \<le> hi then body acc (conv x) else acc))
      else Inr acc)"
  by pat_completeness auto
termination
  by (relation "measure (\<lambda>(body, conv, a, lo, hi, i, stop, acc). nat (stop - i))") auto

text \<open>The local variables of \<open>calculate_statistics\<close> when it returns.\<close>

record 'a locals =
  ignore_runs :: int
  effective_runs :: int
  sorted_times :: "'a list"
  q1 :: real
  q3 :: real
  iqr :: real
  sum_valid :: real
  valid_runs :: int
  mean :: double
  sum_sq_diff :: double
  std_dev :: double

text \<open>
  The body of \<open>calculate_statistics\<close>, with the two macros as the parameters \<open>ign\<close>
  and \<open>k\<close> and the element conversion \<open>conv\<close>; \<open>samples\<close> is the array
  parameter (\<open>times\<close> or \<open>cycles\<close> in the source). The copy loop
  \<open>sorted_times[i] = samples[i]\<close> for \<open>i < num_runs\<close> reads \<open>num_runs\<close> elements of the
  caller's array and leaves that array as it is.
\<close>

definition calculate_statistics_locals ::
  "('a::linorder \<Rightarrow> real) \<Rightarrow> real \<Rightarrow> real \<Rightarrow> 'a list \<Rightarrow> nat \<Rightarrow> error + 'a locals"
where
  "calculate_statistics_locals conv ign k samples num_runs =
     (if length samples < num_runs then Inl OutOfBounds
      else
        let ig = trunc (real num_runs * ign);
            ef = int num_runs - 2 * ig;
            srt = sort_outer (take num_runs samples) 0 num_runs
        in case read srt (ig + cdiv ef 4) of
             Inl e \<Rightarrow> Inl e
           | Inr v1 \<Rightarrow>
         (case read srt (ig + cdiv (3 * ef) 4) of
             Inl e \<Rightarrow> Inl e
           | Inr v3 \<Rightarrow>
         (let qa = conv v1;
              qb = conv v3;
              d = qb - qa;
              lo = qa - k * d;
              hi = qb + k * d
          in case window_loop (\<lambda>s x. s + x) conv srt lo hi ig (int num_runs - ig) 0 of
               Inl e \<Rightarrow> Inl e
             | Inr s \<Rightarrow>
           (case window_loop (\<lambda>c x. c + 1) conv srt lo hi ig (int num_runs - ig) 0 of
               Inl e \<Rightarrow> Inl e
             | Inr v \<Rightarrow>
           (let m = ddiv (Num s) (Num (of_int v))
            in case window_loop (\<lambda>q x. dadd q (dmul (dsub (Num x) m) (dsub (Num x) m)))
                      conv srt lo hi ig (int num_runs - ig) (Num 0) of
                 Inl e \<Rightarrow> Inl e
               | Inr q \<Rightarrow>
                   Inr \<lparr> ignore_runs = ig, effective_runs = ef, sorted_times = srt,
                         q1 = qa, q3 = qb, iqr = d, sum_valid = s, valid_runs = v,
                         mean = m, sum_sq_diff = q,
                         std_dev = dsqrt (ddiv q (Num (of_int v))) \<rparr>)))))"

text \<open>What the caller gets back through \<open>*mean\<close> and \<open>*std_dev\<close>.\<close>

definition outputs :: "error + 'a locals \<Rightarrow> error + double \<times> double" where
  "outputs r = (case r of Inl e \<Rightarrow> Inl e | Inr l \<Rightarrow> Inr (mean l, std_dev l))"

text \<open>
  \<open>calculate_statistics(double times[], int num_runs, double *mean, double *std_dev)\<close>
  of the timing programs and
  \<open>calculate_statistics(unsigned long long cycles[], int num_runs, ...)\<close> of the cycle
  programs, with the macros as they are defined. An \<open>unsigned long long\<close> sample is a
  natural number (the programs only compare, copy and convert them).
\<close>

definition calculate_statistics :: "real list \<Rightarrow> nat \<Rightarrow> error + double \<times> double" where
  "calculate_statistics samples num_runs =
     outputs (calculate_statistics_locals (\<lambda>x. x) IGNORE_PERCENTAGE IQR_MULTIPLIER samples num_runs)"

definition calculate_statistics_cycles :: "nat list \<Rightarrow> nat \<Rightarrow> error + double \<times> double" where
  "calculate_statistics_cycles cycles num_runs =
     outputs (calculate_statistics_locals real IGNORE_PERCENTAGE IQR_MULTIPLIER cycles num_runs)"


section \<open>The call as the caller sees it\<close>

text \<open>
  \<open>calculate_statistics(times, NUM_RUNS, &mean, &std_dev)\<close> in \<open>main\<close>: the memory the
  call can reach is the caller's sample array and the two result variables, which are
  not initialised before the call. The function has no static or global variable; it
  writes the two results and only reads the samples (the sort works on the local copy).
\<close>

record memory =
  times_mem :: "real list"
  mean_mem :: double
  std_dev_mem :: double

definition calculate_statistics_call :: "nat \<Rightarrow> memory \<Rightarrow> error + memory" where
  "calculate_statistics_call num_runs mem =
     (case calculate_statistics (times_mem mem) num_runs of
        Inl e \<Rightarrow> Inl e
      | Inr (m, s) \<Rightarrow> Inr (mem\<lparr>mean_mem := m, std_dev_mem := s\<rparr>))"

text \<open>The two results as the caller reads them after the call.\<close>

definition results :: "error + memory \<Rightarrow> error + double \<times> double" where
  "results r = (case r of Inl e \<Rightarrow> Inl e | Inr mem \<Rightarrow> Inr (mean_mem mem, std_dev_mem mem))"

section \<open>\<open>plot_times\<close> and \<open>plot_cycles\<close>\<close>

text \<open>
  \<^verbatim>\<open>#define NUM_RUNS 350\<close> of the signature timing programs and
  \<^verbatim>\<open>#define NUM_ITERATIONS 50\<close> of the key-exchange programs.
\<close>

definition NUM_RUNS :: nat where
  "NUM_RUNS = 350"

definition NUM_ITERATIONS :: nat where
  "NUM_ITERATIONS = 50"

text \<open>
  What a plot function hands to the plotting library: the four bounds of \<open>plenv\<close> and
  the two arrays of \<open>plline\<close>.
\<close>

record plot =
  xmin :: real
  xmax :: real
  ymin :: real
  ymax :: real
  line_x :: "real list"
  line_y :: "real list"

text \<open>
  \<^verbatim>\<open>
  for (int i = ignore_runs; i < NUM - ignore_runs; i++)
      if (a[i] > max) max = a[i];
  \<close>
\<close>

function max_loop :: "'a::linorder list \<Rightarrow> int \<Rightarrow> int \<Rightarrow> 'a \<Rightarrow> error + 'a" where
  "max_loop a i stop mx =
     (if i < stop
      then (case read a i of
              Inl e \<Rightarrow> Inl e
            | Inr v \<Rightarrow> max_loop a (i + 1) stop (if v > mx then v else mx))
      else Inr mx)"
  by pat_completeness auto
termination
  by (relation "measure (\<lambda>(a, i, stop, mx). nat (stop - i))") auto

text \<open>
  \<^verbatim>\<open>
  for (int i = ignore_runs; i < NUM - ignore_runs; i++) {
      x[i - ignore_runs] = i + 1;
      y[i - ignore_runs] = a[i];
  }
  \<close>
  The cells of \<open>x\<close> and \<open>y\<close> are written in increasing order from cell 0, so the arrays
  are the lists built by appending.
\<close>

function xy_loop ::
  "('a \<Rightarrow> real) \<Rightarrow> 'a list \<Rightarrow> int \<Rightarrow> int \<Rightarrow> real list \<Rightarrow> real list \<Rightarrow> error + real list \<times> real list"
where
  "xy_loop conv a i stop x y =
     (if i < stop
      then (case read a i of
              Inl e \<Rightarrow> Inl e
            | Inr v \<Rightarrow> xy_loop conv a (i + 1) stop (x @ [of_int (i + 1)]) (y @ [conv v]))
      else Inr (x, y))"
  by pat_completeness auto
termination
  by (relation "measure (\<lambda>(conv, a, i, stop, x, y). nat (stop - i))") auto

text \<open>
  \<open>plot_times(double times[], const char *algorithm)\<close> of
  \<open>time-keygen-nonpq.c\<close>. It first converts all \<open>NUM_RUNS\<close> samples to microseconds.
\<close>

definition plot_times :: "real list \<Rightarrow> error + plot" where
  "plot_times samples =
     (if length samples < NUM_RUNS then Inl OutOfBounds
      else
        let times_microseconds = map (\<lambda>t. t * 1000000) (take NUM_RUNS samples);
            ig = trunc (real NUM_RUNS * IGNORE_PERCENTAGE)
        in case max_loop times_microseconds ig (int NUM_RUNS - ig) 0 of
             Inl e \<Rightarrow> Inl e
           | Inr max_time \<Rightarrow>
         (case xy_loop (\<lambda>v. v) times_microseconds ig (int NUM_RUNS - ig) [] [] of
             Inl e \<Rightarrow> Inl e
           | Inr (x, y) \<Rightarrow>
               Inr \<lparr> xmin = of_int (ig + 1), xmax = of_int (int NUM_RUNS - ig),
                     ymin = 0, ymax = 1.1 * max_time, line_x = x, line_y = y \<rparr>))"

text \<open>
  \<open>plot_cycles(unsigned long long cycles[], const char *curve, const char *operation)\<close>
  of \<open>cycles-keygen_nonpq.c\<close>.
\<close>

definition plot_cycles :: "nat list \<Rightarrow> error + plot" where
  "plot_cycles cycles =
     (let ig = trunc (real NUM_ITERATIONS * IGNORE_PERCENTAGE)
      in case max_loop cycles ig (int NUM_ITERATIONS - ig) 0 of
           Inl e \<Rightarrow> Inl e
         | Inr max_cycles \<Rightarrow>
       (case xy_loop real cycles ig (int NUM_ITERATIONS - ig) [] [] of
           Inl e \<Rightarrow> Inl e
         | Inr (x, y) \<Rightarrow>
             Inr \<lparr> xmin = of_int (ig + 1), xmax = of_int (int NUM_ITERATIONS - ig),
                   ymin = 0, ymax = 1.1 * real max_cycles, line_x = x, line_y = y \<rparr>))"

text \<open>
  The body of the curve loop in \<open>main\<close> of \<open>cycles-keygen_nonpq.c\<close>, once the
  \<open>NUM_ITERATIONS\<close> samples are in \<open>keygen_cycles\<close>: the statistics and the chart are
  both computed from that array.
\<close>

definition report_curve :: "nat list \<Rightarrow> (error + double \<times> double) \<times> (error + plot)" where
  "report_curve keygen_cycles =
     (calculate_statistics_cycles keygen_cycles NUM_ITERATIONS, plot_cycles keygen_cycles)"

section \<open>The sign and verify benchmark of \<open>time-signverify-pq.c\<close>\<close>

text \<open>
  The cryptography provider is outside the program. For algorithm \<open>i\<close> and run \<open>j\<close> it
  gives the return value of \<open>EVP_SignFinal\<close> and of \<open>EVP_VerifyFinal\<close> and the two
  measured durations.
\<close>

record provider =
  sign_final :: "nat \<Rightarrow> nat \<Rightarrow> int"
  sign_time :: "nat \<Rightarrow> nat \<Rightarrow> real"
  verify_final :: "nat \<Rightarrow> nat \<Rightarrow> int"
  verify_time :: "nat \<Rightarrow> nat \<Rightarrow> real"

definition EXIT_FAILURE :: int where
  "EXIT_FAILURE = 1"

text \<open>How the process ends: \<open>return\<close> from \<open>main\<close>, \<open>exit\<close>, or undefined behaviour.\<close>

datatype status = Returned int | Exited int | Undefined error

text \<open>
  What the process does that can be observed: the calls into the provider, the summary
  printed for an algorithm (mean, standard deviation and percentage, for signing and for
  verifying) and the two charts.
\<close>

datatype event =
    SignCall nat nat
  | VerifyCall nat nat
  | Summary nat "double \<times> double \<times> double" "double \<times> double \<times> double"
  | Chart nat string "error + plot"

text \<open>
  \<open>sign_xml\<close>: \<^verbatim>\<open>if (!EVP_SignFinal(...)) { ...; exit(EXIT_FAILURE); }\<close>, else the
  duration is returned.
\<close>

definition sign_xml :: "provider \<Rightarrow> nat \<Rightarrow> nat \<Rightarrow> int + real" where
  "sign_xml prov i j =
     (if sign_final prov i j = 0 then Inl EXIT_FAILURE else Inr (sign_time prov i j))"

text \<open>
  \<open>verify_signature\<close>:
  \<^verbatim>\<open>if (verify_result != 1) { ...; exit(EXIT_FAILURE); }\<close>, else the duration is
  returned.
\<close>

definition verify_signature :: "provider \<Rightarrow> nat \<Rightarrow> nat \<Rightarrow> int + real" where
  "verify_signature prov i j =
     (if verify_final prov i j \<noteq> 1 then Inl EXIT_FAILURE else Inr (verify_time prov i j))"

text \<open>
  The inner loop of \<open>main\<close>:
  \<^verbatim>\<open>
  for (int j = 0; j < NUM_RUNS; j++) {
      sign_times[j] = sign_xml(...);
      verify_times[j] = verify_signature(...);
      free(signature);
  }
  \<close>
  An \<open>exit\<close> inside a call ends the loop with the exit code.
\<close>

function sign_verify_runs ::
  "provider \<Rightarrow> nat \<Rightarrow> nat \<Rightarrow> real list \<Rightarrow> real list \<Rightarrow> event list
     \<Rightarrow> event list \<times> (int + real list \<times> real list)"
where
  "sign_verify_runs prov i j sign_times verify_times tr =
     (if j < NUM_RUNS
      then (case sign_xml prov i j of
              Inl code \<Rightarrow> (tr @ [SignCall i j], Inl code)
            | Inr s \<Rightarrow>
          (case verify_signature prov i j of
              Inl code \<Rightarrow> (tr @ [SignCall i j, VerifyCall i j], Inl code)
            | Inr v \<Rightarrow>
                sign_verify_runs prov i (j + 1) (sign_times @ [s]) (verify_times @ [v])
                  (tr @ [SignCall i j, VerifyCall i j])))
      else (tr, Inr (sign_times, verify_times)))"
  by pat_completeness auto
termination
  by (relation "measure (\<lambda>(prov, i, j, st, vt, tr). NUM_RUNS - j)") auto

text \<open>
  The conversion to microseconds and the percentage that \<open>main\<close> prints:
  \<^verbatim>\<open>mean *= 1000000; std_dev *= 1000000; pct = (std_dev / mean) * 100;\<close>
\<close>

definition summary_line :: "double \<times> double \<Rightarrow> double \<times> double \<times> double" where
  "summary_line r =
     (let m = dmul (fst r) (Num 1000000);
          s = dmul (snd r) (Num 1000000)
      in (m, s, dmul (ddiv s m) (Num 100)))"

definition num_algorithms :: nat where
  "num_algorithms = 9"

text \<open>
  The outer loop of \<open>main\<close> (\<open>for (int i = 0; i < num_algorithms; i++)\<close>), from
  algorithm \<open>i\<close> on, and the \<open>return 0\<close> after it.
\<close>

function main_algorithms :: "provider \<Rightarrow> nat \<Rightarrow> event list \<Rightarrow> event list \<times> status" where
  "main_algorithms prov i tr =
     (if i < num_algorithms
      then (case sign_verify_runs prov i 0 [] [] tr of
              (tr', Inl code) \<Rightarrow> (tr', Exited code)
            | (tr', Inr (sign_times, verify_times)) \<Rightarrow>
          (case calculate_statistics sign_times NUM_RUNS of
              Inl e \<Rightarrow> (tr', Undefined e)
            | Inr rs \<Rightarrow>
          (case calculate_statistics verify_times NUM_RUNS of
              Inl e \<Rightarrow> (tr', Undefined e)
            | Inr rv \<Rightarrow>
                main_algorithms prov (i + 1)
                  (tr' @ [Summary i (summary_line rs) (summary_line rv),
                          Chart i ''signing'' (plot_times sign_times),
                          Chart i ''verifying'' (plot_times verify_times)]))))
      else (tr, Returned 0))"
  by pat_completeness auto
termination
  by (relation "measure (\<lambda>(prov, i, tr). num_algorithms - i)") auto

section \<open>The scenarios of the specification\<close>

text \<open>Scenario A: the integers 1 to 50 in increasing order.\<close>

definition scenario_A :: "real list" where
  "scenario_A = map real [1 ..< 51]"

text \<open>Scenario B: scenario A with the value 26, at position 25, replaced by 100000.\<close>

definition scenario_B :: "real list" where
  "scenario_B = scenario_A[25 := 100000]"

text \<open>
  Scenario B sorted, and the 30 values at the positions 10 to 39 of that sorted list.
\<close>

definition sorted_B :: "real list" where
  "sorted_B = map real [1 ..< 26] @ map real [27 ..< 51] @ [100000]"

definition window_B :: "real list" where
  "window_B = map real [11 ..< 26] @ map real [27 ..< 42]"

text \<open>
  Scenario B as cycle counts, in arrival order: the outlier is the sample of run 26.
\<close>

definition cycles_B :: "nat list" where
  "cycles_B = [1 ..< 26] @ [100000] @ [27 ..< 51]"

text \<open>The population mean and the population standard deviation of a list of values.\<close>

definition pop_mean :: "real list \<Rightarrow> real" where
  "pop_mean xs = sum_list xs / real (length xs)"

definition pop_stddev :: "real list \<Rightarrow> real" where
  "pop_stddev xs = sqrt ((\<Sum>x\<leftarrow>xs. (x - pop_mean xs) * (x - pop_mean xs)) / real (length xs))"

section \<open>Notions used to state the properties\<close>

text \<open>
  The middle window \<open>sorted[ignoreCount .. N - ignoreCount - 1]\<close> of an array, the
  values of a window that lie in the acceptance band \<open>[lo, hi]\<close> (the valid set), and
  the acceptance test of the three loops as one step of a fold.
\<close>

definition middle_window :: "'a list \<Rightarrow> int \<Rightarrow> nat \<Rightarrow> 'a list" where
  "middle_window a ig n = take (nat (int n - 2 * ig)) (drop (nat ig) a)"

definition valid_set :: "('a \<Rightarrow> real) \<Rightarrow> real \<Rightarrow> real \<Rightarrow> 'a list \<Rightarrow> real list" where
  "valid_set conv lo hi w = filter (\<lambda>x. lo \<le> x \<and> x \<le> hi) (map conv w)"

definition band_step ::
  "('b \<Rightarrow> real \<Rightarrow> 'b) \<Rightarrow> ('a \<Rightarrow> real) \<Rightarrow> real \<Rightarrow> real \<Rightarrow> 'b \<Rightarrow> 'a \<Rightarrow> 'b"
where
  "band_step body conv lo hi =
     (\<lambda>acc x. if conv x \<ge> lo \<and> conv x \<le> hi then body acc (conv x) else acc)"

text \<open>
  The valid set of a finished run of \<open>calculate_statistics\<close>: the values of the middle
  window of its sorted array inside the band \<open>[q1 - k * iqr, q3 + k * iqr]\<close>.
\<close>

definition valid_values :: "('a \<Rightarrow> real) \<Rightarrow> real \<Rightarrow> 'a locals \<Rightarrow> nat \<Rightarrow> real list" where
  "valid_values conv k l n =
     valid_set conv (q1 l - k * iqr l) (q3 l + k * iqr l)
       (middle_window (sorted_times l) (ignore_runs l) n)"

text \<open>
  The events that may be observed when the run \<open>j\<close> of algorithm \<open>i\<close> is fatal: provider
  calls up to that run, and summaries and charts of earlier algorithms only.
\<close>

fun allowed :: "nat \<Rightarrow> nat \<Rightarrow> event \<Rightarrow> bool" where
  "allowed i j (SignCall a b) = (a < i \<or> (a = i \<and> b \<le> j))"
| "allowed i j (VerifyCall a b) = (a < i \<or> (a = i \<and> b \<le> j))"
| "allowed i j (Summary a s v) = (a < i)"
| "allowed i j (Chart a name p) = (a < i)"

text \<open>The provider calls of the runs \<open>lo\<close> to \<open>hi - 1\<close> of algorithm \<open>i\<close>, in order.\<close>

definition calls :: "nat \<Rightarrow> nat \<Rightarrow> nat \<Rightarrow> event list" where
  "calls i lo hi = concat (map (\<lambda>b. [SignCall i b, VerifyCall i b]) [lo ..< hi])"

text \<open>The invariant of the outer sort loop: the first \<open>i\<close> cells are final.\<close>

definition sorted_upto :: "'a::linorder list \<Rightarrow> nat \<Rightarrow> bool" where
  "sorted_upto a i \<longleftrightarrow>
     sorted (take i a) \<and> (\<forall>x \<in> set (take i a). \<forall>y \<in> set (drop i a). x \<le> y)"


section \<open>The sort loops sort\<close>

declare sort_inner.simps [simp del] sort_outer.simps [simp del]

lemma sort_inner_length [simp]: "length (sort_inner a i j n) = length a"
  by (induction a i j n rule: sort_inner.induct) (subst sort_inner.simps, simp)

lemma sort_inner_mset:
  "i < j \<Longrightarrow> n \<le> length a \<Longrightarrow> mset (sort_inner a i j n) = mset a"
proof (induction a i j n rule: sort_inner.induct)
  case (1 a i j n)
  show ?case
  proof (cases "j < n")
    case True
    let ?a' = "if a ! i > a ! j then a[i := a ! j, j := a ! i] else a"
    have "mset ?a' = mset a"
      using True 1(2,3) by (simp add: mset_swap)
    moreover have "mset (sort_inner ?a' i (j + 1) n) = mset ?a'"
      using True 1 by simp
    ultimately show ?thesis
      using True by (subst sort_inner.simps) simp
  next
    case False
    then show ?thesis by (subst sort_inner.simps) simp
  qed
qed

lemma sort_inner_take:
  "i < j \<Longrightarrow> take i (sort_inner a i j n) = take i a"
proof (induction a i j n rule: sort_inner.induct)
  case (1 a i j n)
  show ?case
  proof (cases "j < n")
    case True
    let ?a' = "if a ! i > a ! j then a[i := a ! j, j := a ! i] else a"
    have "take i ?a' = take i a"
      using 1(2) by simp
    moreover have "take i (sort_inner ?a' i (j + 1) n) = take i ?a'"
      using True 1 by simp
    ultimately show ?thesis
      using True by (subst sort_inner.simps) simp
  next
    case False
    then show ?thesis by (subst sort_inner.simps) simp
  qed
qed

lemma sort_inner_min:
  "i < j \<Longrightarrow> n \<le> length a \<Longrightarrow> \<forall>k. i < k \<and> k < j \<longrightarrow> a ! i \<le> a ! k \<Longrightarrow>
   \<forall>k. i < k \<and> k < n \<longrightarrow> sort_inner a i j n ! i \<le> sort_inner a i j n ! k"
proof (induction a i j n rule: sort_inner.induct)
  case (1 a i j n)
  show ?case
  proof (cases "j < n")
    case True
    let ?a' = "if a ! i > a ! j then a[i := a ! j, j := a ! i] else a"
    have inv: "\<forall>k. i < k \<and> k < j + 1 \<longrightarrow> ?a' ! i \<le> ?a' ! k"
    proof (intro allI impI)
      fix k assume k: "i < k \<and> k < j + 1"
      show "?a' ! i \<le> ?a' ! k"
      proof (cases "a ! i > a ! j")
        case sw: True
        show ?thesis
        proof (cases "k = j")
          case True
          then show ?thesis using sw 1(2,3) \<open>j < n\<close> by simp
        next
          case False
          then have "k < j" using k by simp
          then have "a ! i \<le> a ! k" using k 1(4) by simp
          then show ?thesis using sw 1(2,3) \<open>j < n\<close> \<open>k < j\<close> k by simp
        qed
      next
        case nsw: False
        show ?thesis
        proof (cases "k = j")
          case True
          then show ?thesis using nsw by simp
        next
          case False
          then have "k < j" using k by simp
          then show ?thesis using nsw k 1(4) by simp
        qed
      qed
    qed
    have "\<forall>k. i < k \<and> k < n \<longrightarrow>
            sort_inner ?a' i (j + 1) n ! i \<le> sort_inner ?a' i (j + 1) n ! k"
      using 1(1)[OF True] 1(2,3) inv by simp
    then show ?thesis
      using True by (subst (1 2) sort_inner.simps) simp
  next
    case False
    then show ?thesis using 1(2,4) by (subst (1 2) sort_inner.simps) simp
  qed
qed


lemma sort_inner_step:
  assumes "sorted_upto a i" "i + 1 < n" "n = length a"
  shows "sorted_upto (sort_inner a i (i + 1) n) (i + 1)"
proof -
  let ?b = "sort_inner a i (i + 1) n"
  have len: "length ?b = length a" by simp
  have tk: "take i ?b = take i a" by (simp add: sort_inner_take)
  have ms: "mset ?b = mset a" using assms by (simp add: sort_inner_mset)
  have mn: "\<forall>k. i < k \<and> k < n \<longrightarrow> ?b ! i \<le> ?b ! k"
    using assms by (intro sort_inner_min) auto
  have "mset (take i ?b) + mset (drop i ?b) = mset (take i a) + mset (drop i a)"
    using ms by (metis append_take_drop_id mset_append)
  then have md: "mset (drop i ?b) = mset (drop i a)" using tk by simp
  then have sd: "set (drop i ?b) = set (drop i a)" by (rule mset_eq_setD)
  have i_lt: "i < length ?b" using assms by simp
  have tk1: "take (i + 1) ?b = take i a @ [?b ! i]"
    using i_lt tk by (simp add: take_Suc_conv_app_nth)
  have bi: "?b ! i \<in> set (drop i a)"
    using i_lt sd by (metis Cons_nth_drop_Suc list.set_intros(1))
  have s1: "sorted (take (i + 1) ?b)"
    using assms(1) bi unfolding tk1 sorted_upto_def by (auto simp: sorted_append)
  have dr: "set (drop (i + 1) ?b) \<subseteq> set (drop i a)"
    using sd by (metis set_drop_subset_set_drop le_add1)
  have s2: "\<forall>x \<in> set (take (i + 1) ?b). \<forall>y \<in> set (drop (i + 1) ?b). x \<le> y"
  proof (intro ballI)
    fix x y assume x: "x \<in> set (take (i + 1) ?b)" and y: "y \<in> set (drop (i + 1) ?b)"
    from y obtain k where k: "k < length ?b - (i + 1)" "y = ?b ! (i + 1 + k)"
      by (auto simp: in_set_conv_nth)
    have "?b ! i \<le> y" using mn k assms len by simp
    moreover have "x \<in> set (take i a) \<or> x = ?b ! i" using x unfolding tk1 by auto
    moreover have "y \<in> set (drop i a)" using y dr by auto
    ultimately show "x \<le> y" using assms(1) unfolding sorted_upto_def by auto
  qed
  show ?thesis unfolding sorted_upto_def using s1 s2 by simp
qed

lemma sort_outer_length [simp]: "length (sort_outer a i n) = length a"
  by (induction a i n rule: sort_outer.induct) (subst sort_outer.simps, simp)

lemma sort_outer_mset: "n \<le> length a \<Longrightarrow> mset (sort_outer a i n) = mset a"
  by (induction a i n rule: sort_outer.induct)
     (subst sort_outer.simps, simp add: sort_inner_mset)

lemma sort_outer_sorted:
  "sorted_upto a i \<Longrightarrow> n = length a \<Longrightarrow> sorted (sort_outer a i n)"
proof (induction a i n rule: sort_outer.induct)
  case (1 a i n)
  show ?case
  proof (cases "i + 1 < n")
    case True
    then show ?thesis
      using 1 sort_inner_step[of a i n] by (subst sort_outer.simps) simp
  next
    case False
    have "sorted a"
    proof (cases "i < n")
      case True
      then have "drop i a = [a ! i]" using False 1(3)
        by (metis Cons_nth_drop_Suc Suc_eq_plus1 drop_all linorder_not_less)
      then have "a = take i a @ [a ! i]" by (metis append_take_drop_id)
      moreover have "sorted (take i a @ [a ! i])"
        using 1(2) \<open>drop i a = [a ! i]\<close> unfolding sorted_upto_def
        by (auto simp: sorted_append)
      ultimately show ?thesis by simp
    next
      case False
      then show ?thesis using 1(2,3) unfolding sorted_upto_def by simp
    qed
    then show ?thesis using False by (subst sort_outer.simps) simp
  qed
qed

lemma sort_outer_sort: "sort_outer a 0 (length a) = sort a"
proof -
  have "sorted_upto a 0" by (simp add: sorted_upto_def)
  then have "sorted (sort_outer a 0 (length a))" by (simp add: sort_outer_sorted)
  moreover have "mset (sort_outer a 0 (length a)) = mset a" by (simp add: sort_outer_mset)
  ultimately show ?thesis by (metis properties_for_sort)
qed



section \<open>The window loops as folds\<close>

declare window_loop.simps [simp del]

lemma window_loop_foldl:
  "0 \<le> i \<Longrightarrow> stop \<le> int (length a) \<Longrightarrow>
   window_loop body conv a lo hi i stop acc =
     Inr (foldl (band_step body conv lo hi) acc (take (nat (stop - i)) (drop (nat i) a)))"
proof (induction body conv a lo hi i stop acc rule: window_loop.induct)
  case (1 body conv a lo hi i stop acc)
  show ?case
  proof (cases "i < stop")
    case True
    then have rd: "read a i = Inr (a ! nat i)"
      using 1(2,3) by (simp add: read_def)
    have n: "nat (stop - i) = Suc (nat (stop - (i + 1)))" using True by simp
    have lt: "nat i < length a" using True 1(2,3) by simp
    have d: "drop (nat i) a = a ! nat i # drop (nat (i + 1)) a"
      using lt 1(2) by (simp add: Cons_nth_drop_Suc nat_add_distrib)
    show ?thesis
      using True rd 1(1)[OF True rd] 1(2,3)
      by (subst window_loop.simps) (simp add: n d band_step_def)
  next
    case False
    then show ?thesis by (subst window_loop.simps) simp
  qed
qed

lemma foldl_sum_band:
  "foldl (band_step (\<lambda>s x. s + x) conv lo hi) acc xs =
     acc + sum_list (filter (\<lambda>x. lo \<le> x \<and> x \<le> hi) (map conv xs))"
  by (induction xs arbitrary: acc) (auto simp: band_step_def)

lemma foldl_count_band:
  "foldl (band_step (\<lambda>c x. c + 1) conv lo hi) acc xs =
     acc + int (length (filter (\<lambda>x. lo \<le> x \<and> x \<le> hi) (map conv xs)))"
  by (induction xs arbitrary: acc) (auto simp: band_step_def)

lemma foldl_sq_band:
  "foldl (band_step (\<lambda>q x. dadd q (dmul (dsub (Num x) (Num m)) (dsub (Num x) (Num m)))) conv lo hi) (Num acc) xs =
     Num (acc + (\<Sum>x\<leftarrow>filter (\<lambda>x. lo \<le> x \<and> x \<le> hi) (map conv xs). (x - m) * (x - m)))"
  by (induction xs arbitrary: acc) (auto simp: band_step_def dsub_def)

lemma foldl_band_none:
  "filter (\<lambda>x. lo \<le> x \<and> x \<le> hi) (map conv xs) = [] \<Longrightarrow>
   foldl (band_step body conv lo hi) acc xs = acc"
  by (induction xs arbitrary: acc) (auto simp: band_step_def split: if_splits)

lemma cdiv_nonneg: "0 \<le> a \<Longrightarrow> 0 < b \<Longrightarrow> cdiv a b = a div b"
  by (cases "a = 0") (simp_all add: cdiv_def)

lemma sq_sum_empty:
  "valid_set conv lo hi w = [] \<Longrightarrow>
   foldl (band_step body conv lo hi) acc w = acc"
  unfolding valid_set_def by (rule foldl_band_none)

section \<open>The result of \<open>calculate_statistics\<close> in closed form\<close>

lemma calculate_statistics_locals_eq:
  fixes conv :: "'a::linorder \<Rightarrow> real"
  assumes len: "num_runs \<le> length samples"
    and ig: "ig = trunc (real num_runs * ign)" "0 \<le> ig"
    and ef: "ef = int num_runs - 2 * ig" "1 \<le> ef"
    and srt: "srt = sort (take num_runs samples)"
    and qa: "qa = conv (srt ! nat (ig + ef div 4))"
    and qb: "qb = conv (srt ! nat (ig + 3 * ef div 4))"
    and vs: "vs = valid_set conv (qa - k * (qb - qa)) (qb + k * (qb - qa))
                    (middle_window srt ig num_runs)"
    and mu: "mu = sum_list vs / real (length vs)"
  shows "calculate_statistics_locals conv ign k samples num_runs =
     Inr \<lparr> ignore_runs = ig, effective_runs = ef, sorted_times = srt,
           q1 = qa, q3 = qb, iqr = qb - qa, sum_valid = sum_list vs,
           valid_runs = int (length vs),
           mean = (if vs = [] then NaN else Num mu),
           sum_sq_diff = Num (\<Sum>x\<leftarrow>vs. (x - mu) * (x - mu)),
           std_dev = (if vs = [] then NaN
                      else Num (sqrt ((\<Sum>x\<leftarrow>vs. (x - mu) * (x - mu)) / real (length vs)))) \<rparr>"
proof -
  let ?lo = "qa - k * (qb - qa)" and ?hi = "qb + k * (qb - qa)"
  have n: "length (take num_runs samples) = num_runs" using len by simp
  have so: "sort_outer (take num_runs samples) 0 num_runs = srt"
    using sort_outer_sort[of "take num_runs samples"] n srt by simp
  have ls: "length srt = num_runs" using srt n by simp
  have i1: "0 \<le> ig + ef div 4" "ig + ef div 4 < int (length srt)"
    using ig(2) ef ls by auto
  have i3: "0 \<le> ig + 3 * ef div 4" "ig + 3 * ef div 4 < int (length srt)"
    using ig(2) ef ls by auto
  have r1: "read srt (ig + cdiv ef 4) = Inr (srt ! nat (ig + ef div 4))"
    using i1 ef(2) by (simp add: read_def cdiv_nonneg)
  have r3: "read srt (ig + cdiv (3 * ef) 4) = Inr (srt ! nat (ig + 3 * ef div 4))"
    using i3 ef(2) by (simp add: read_def cdiv_nonneg)
  have st: "int num_runs - ig \<le> int (length srt)" using ig(2) ls by simp
  have wl: "window_loop body conv srt lo hi ig (int num_runs - ig) acc =
      Inr (foldl (band_step body conv lo hi) acc (middle_window srt ig num_runs))"
    for body :: "'b \<Rightarrow> real \<Rightarrow> 'b" and lo hi acc
    using window_loop_foldl[OF ig(2) st] by (simp add: middle_window_def)
  have l1: "window_loop (\<lambda>s x. s + x) conv srt ?lo ?hi ig (int num_runs - ig) 0 = Inr (sum_list vs)"
    by (simp add: wl foldl_sum_band vs valid_set_def)
  have l2: "window_loop (\<lambda>c x. c + 1) conv srt ?lo ?hi ig (int num_runs - ig) 0 = Inr (int (length vs))"
    by (simp add: wl foldl_count_band vs valid_set_def)
  have m: "ddiv (Num (sum_list vs)) (Num (of_int (int (length vs)))) = (if vs = [] then NaN else Num mu)"
    by (simp add: mu)
  have l3: "window_loop (\<lambda>q x. dadd q (dmul (dsub (Num x) (if vs = [] then NaN else Num mu))
                                          (dsub (Num x) (if vs = [] then NaN else Num mu))))
              conv srt ?lo ?hi ig (int num_runs - ig) (Num 0)
            = Inr (Num (\<Sum>x\<leftarrow>vs. (x - mu) * (x - mu)))"
  proof (cases "vs = []")
    case True
    then show ?thesis
      using sq_sum_empty[of conv ?lo ?hi "middle_window srt ig num_runs"] vs
      by (simp add: wl)
  next
    case False
    then show ?thesis
      by (simp add: wl foldl_sq_band vs valid_set_def)
  qed
  have sd: "dsqrt (ddiv (Num (\<Sum>x\<leftarrow>vs. (x - mu) * (x - mu))) (Num (of_int (int (length vs))))) =
        (if vs = [] then NaN else Num (sqrt ((\<Sum>x\<leftarrow>vs. (x - mu) * (x - mu)) / real (length vs))))"
  proof (cases "vs = []")
    case True
    then show ?thesis by simp
  next
    case False
    have "0 \<le> (\<Sum>x\<leftarrow>vs. (x - mu) * (x - mu))" by (rule sum_list_nonneg) auto
    then show ?thesis using False by simp
  qed
  show ?thesis
    unfolding calculate_statistics_locals_def
    using len
    apply (simp only: Let_def ig(1)[symmetric] ef(1)[symmetric] so)
    apply (simp only: r1 r3 sum.case qa[symmetric] qb[symmetric] l1 l2 m l3 sd)
    apply simp
    done
qed





lemma trunc_ignore: "trunc (real n * IGNORE_PERCENTAGE) = int (n div 5)"
proof -
  have "real n * IGNORE_PERCENTAGE = real n / real 5"
    by (simp add: IGNORE_PERCENTAGE_def)
  then have "\<lfloor>real n * IGNORE_PERCENTAGE\<rfloor> = int (n div 5)"
    by (simp only: floor_divide_of_nat_eq)
  moreover have "0 \<le> real n * IGNORE_PERCENTAGE" by (simp add: IGNORE_PERCENTAGE_def)
  ultimately show ?thesis by (simp add: trunc_def)
qed

section \<open>Claim C3: the indices for 50 samples\<close>

text \<open>
  C3. With \<open>N = 50\<close> and the ignore fraction 0.2, \<open>calculate_statistics\<close> (here the
  cycle-count version) computes \<open>ignore_runs = 10\<close> by truncating \<open>50 * 0.2\<close> and
  \<open>effective_runs = 30\<close>; the index of Q1 is \<open>10 + 30 / 4 = 17\<close> and the index of Q3 is
  \<open>10 + 3 * 30 / 4 = 32\<close>, and both are read from the sorted array of all 50 samples.
\<close>

theorem indices_for_50:
  assumes "length cycles = 50"
  shows "trunc (real 50 * IGNORE_PERCENTAGE) = 10 \<and>
    (\<exists>l. calculate_statistics_locals real IGNORE_PERCENTAGE IQR_MULTIPLIER cycles 50 = Inr l
       \<and> ignore_runs l = 10 \<and> effective_runs l = 30
       \<and> ignore_runs l + cdiv (effective_runs l) 4 = 17
       \<and> ignore_runs l + cdiv (3 * effective_runs l) 4 = 32
       \<and> sorted_times l = sort cycles \<and> length (sorted_times l) = 50
       \<and> q1 l = real (sort cycles ! 17) \<and> q3 l = real (sort cycles ! 32))"
proof -
  have ig: "(10::int) = trunc (real 50 * IGNORE_PERCENTAGE)"
    by (simp add: trunc_def IGNORE_PERCENTAGE_def)
  have len: "(50::nat) \<le> length cycles" using assms by simp
  have srt: "sort cycles = sort (take 50 cycles)" using assms by simp
  have p1: "(0::int) \<le> 10" and p2: "(30::int) = int 50 - 2 * 10" and p3: "(1::int) \<le> 30"
    by simp_all
  note e = calculate_statistics_locals_eq[where conv = real and k = IQR_MULTIPLIER,
      OF len ig p1 p2 p3 srt refl refl refl refl]
  show ?thesis
    using e assms by (simp add: trunc_def IGNORE_PERCENTAGE_def cdiv_nonneg)
qed


theorem indices_for_50_witness:
  "length (rev [1 ..< 51]) = 50 \<and>
   (\<exists>l. calculate_statistics_locals real IGNORE_PERCENTAGE IQR_MULTIPLIER (rev [1 ..< 51]) 50 = Inr l
       \<and> ignore_runs l = 10 \<and> effective_runs l = 30
       \<and> q1 l = real (sort (rev [1 ..< 51]) ! 17) \<and> q3 l = real (sort (rev [1 ..< 51]) ! 32))"
  using indices_for_50[of "rev [1 ..< 51]"] by auto

section \<open>Scenario A\<close>

lemma scenario_A_sorted: "sorted scenario_A"
  unfolding scenario_A_def by (simp add: sorted_map)

lemma scenario_A_length: "length scenario_A = 50"
  by (simp add: scenario_A_def)

lemma scenario_A_quartiles: "scenario_A ! 17 = 18" "scenario_A ! 32 = 33"
  by (simp_all add: scenario_A_def)

lemma scenario_A_window: "middle_window scenario_A 10 50 = map real [11 ..< 41]"
  by (simp add: middle_window_def scenario_A_def take_map drop_map take_upt)

lemma window_A_sum: "sum_list (map real [11 ..< 41]) = 765"
  by (simp add: upt_rec)

lemma window_A_squares: "(\<Sum>x\<leftarrow>map real [11 ..< 41]. (x - 51 / 2) * (x - 51 / 2)) = 4495 / 2"
  by (simp add: upt_rec)

lemma window_A_valid:
  "valid_set (\<lambda>x. x) (18 - IQR_MULTIPLIER * (33 - 18)) (33 + IQR_MULTIPLIER * (33 - 18))
     (map real [11 ..< 41]) = map real [11 ..< 41]"
  by (simp add: valid_set_def IQR_MULTIPLIER_def upt_rec)

lemma window_A_stddev: "pop_stddev (map real [11 ..< 41]) = sqrt (899 / 12)"
proof -
  have pm: "pop_mean (map real [11 ..< 41]) = 51 / 2"
    by (simp add: pop_mean_def)
  show ?thesis
    unfolding pop_stddev_def pm window_A_squares by simp
qed

lemma sqrt_899_12: "8.655 < sqrt (899 / 12)" "sqrt (899 / 12) < 8.656"
  by (rule real_less_rsqrt, simp add: power2_eq_square)
     (rule real_less_lsqrt, simp_all add: power2_eq_square)

lemma scenario_A_locals:
  assumes "mset samples = mset scenario_A"
  shows "calculate_statistics_locals (\<lambda>x. x) IGNORE_PERCENTAGE IQR_MULTIPLIER samples 50 =
     Inr \<lparr> ignore_runs = 10, effective_runs = 30, sorted_times = scenario_A,
           q1 = 18, q3 = 33, iqr = 15, sum_valid = 765, valid_runs = 30,
           mean = Num 25.5, sum_sq_diff = Num 2247.5,
           std_dev = Num (pop_stddev (map real [11 ..< 41])) \<rparr>"
proof -
  have "size (mset samples) = size (mset scenario_A)" using assms by simp
  then have n: "length samples = 50" by (simp add: scenario_A_length)
  have len: "(50::nat) \<le> length samples" using n by simp
  have "sort samples = scenario_A"
    using assms scenario_A_sorted by (metis properties_for_sort)
  then have srt: "scenario_A = sort (take 50 samples)" using n by simp
  have ig: "(10::int) = trunc (real 50 * IGNORE_PERCENTAGE)"
    by (simp add: trunc_def IGNORE_PERCENTAGE_def)
  have p1: "(0::int) \<le> 10" and p2: "(30::int) = int 50 - 2 * 10" and p3: "(1::int) \<le> 30"
    by simp_all
  have qa: "(18::real) = scenario_A ! nat (10 + 30 div 4)"
    by (simp add: scenario_A_quartiles)
  have qb: "(33::real) = scenario_A ! nat (10 + 3 * 30 div 4)"
    by (simp add: scenario_A_quartiles)
  have vs: "map real [11 ..< 41] =
      valid_set (\<lambda>x. x) (18 - IQR_MULTIPLIER * (33 - 18)) (33 + IQR_MULTIPLIER * (33 - 18))
        (middle_window scenario_A 10 50)"
    by (simp only: scenario_A_window window_A_valid)
  have mu: "(51 / 2 :: real) = sum_list (map real [11 ..< 41]) / real (length (map real [11 ..< 41]))"
    by simp
  note e = calculate_statistics_locals_eq[where conv = "\<lambda>x. x" and k = IQR_MULTIPLIER,
      OF len ig p1 p2 p3 srt qa qb vs mu]
  show ?thesis
    unfolding e window_A_sum window_A_squares window_A_stddev by simp
qed

lemma sqrt_899_12_fine: "sqrt (899 / 12) < 8.6555"
  by (rule real_less_lsqrt) (simp_all add: power2_eq_square)

section \<open>Claim C1: scenario A\<close>

text \<open>
  C1 (as amended). For samples that are exactly the integers 1 to 50 in any arrival
  order, with \<open>N = 50\<close>, the ignore fraction 0.2 and the IQR multiplier 1.5,
  \<open>calculate_statistics\<close> yields the window \<open>sorted[10..39]\<close> = 11 to 40,
  \<open>Q1 = sorted[17] = 18\<close>, \<open>Q3 = sorted[32] = 33\<close>, \<open>IQR = 15\<close>, the acceptance band
  \<open>[-4.5, 55.5]\<close>, all 30 window values valid, the mean 25.5 and as standard deviation
  the population standard deviation of 11 to 40, which is \<open>sqrt (899 / 12)\<close>, between
  8.655 and 8.6555 (so 8.655 to three decimals, not 8.654).
\<close>

theorem scenario_A_statistics:
  assumes "mset samples = mset scenario_A"
  shows "\<exists>l. calculate_statistics_locals (\<lambda>x. x) IGNORE_PERCENTAGE IQR_MULTIPLIER samples 50 = Inr l
    \<and> calculate_statistics samples 50 = Inr (mean l, std_dev l)
    \<and> ignore_runs l = 10 \<and> effective_runs l = 30
    \<and> middle_window (sorted_times l) (ignore_runs l) 50 = map real [11 ..< 41]
    \<and> q1 l = sorted_times l ! 17 \<and> q1 l = 18
    \<and> q3 l = sorted_times l ! 32 \<and> q3 l = 33
    \<and> iqr l = 15
    \<and> q1 l - IQR_MULTIPLIER * iqr l = - 4.5
    \<and> q3 l + IQR_MULTIPLIER * iqr l = 55.5
    \<and> valid_values (\<lambda>x. x) IQR_MULTIPLIER l 50 = map real [11 ..< 41]
    \<and> valid_runs l = 30
    \<and> mean l = Num 25.5
    \<and> std_dev l = Num (pop_stddev (map real [11 ..< 41]))
    \<and> pop_stddev (map real [11 ..< 41]) = sqrt (899 / 12)
    \<and> 8.655 < pop_stddev (map real [11 ..< 41])
    \<and> pop_stddev (map real [11 ..< 41]) < 8.6555"
proof -
  let ?l = "\<lparr> ignore_runs = 10, effective_runs = 30, sorted_times = scenario_A,
           q1 = 18, q3 = 33, iqr = 15, sum_valid = 765, valid_runs = 30,
           mean = Num 25.5, sum_sq_diff = Num 2247.5,
           std_dev = Num (pop_stddev (map real [11 ..< 41])) \<rparr>"
  have run: "calculate_statistics_locals (\<lambda>x. x) IGNORE_PERCENTAGE IQR_MULTIPLIER samples 50 = Inr ?l"
    using assms by (rule scenario_A_locals)
  have out: "calculate_statistics samples 50 = Inr (mean ?l, std_dev ?l)"
    unfolding calculate_statistics_def run outputs_def by simp
  have win: "middle_window (sorted_times ?l) (ignore_runs ?l) 50 = map real [11 ..< 41]"
    using scenario_A_window by simp
  have val: "valid_values (\<lambda>x. x) IQR_MULTIPLIER ?l 50 = map real [11 ..< 41]"
    unfolding valid_values_def using window_A_valid scenario_A_window by simp
  have band: "q1 ?l - IQR_MULTIPLIER * iqr ?l = - 4.5" "q3 ?l + IQR_MULTIPLIER * iqr ?l = 55.5"
    by (simp_all add: IQR_MULTIPLIER_def)
  have qs: "q1 ?l = sorted_times ?l ! 17" "q3 ?l = sorted_times ?l ! 32"
    by (simp_all add: scenario_A_quartiles)
  have sd: "pop_stddev (map real [11 ..< 41]) = sqrt (899 / 12)"
      "8.655 < pop_stddev (map real [11 ..< 41])" "pop_stddev (map real [11 ..< 41]) < 8.6555"
    unfolding window_A_stddev using sqrt_899_12(1) sqrt_899_12_fine by simp_all
  have rest: "ignore_runs ?l = 10" "effective_runs ?l = 30" "q1 ?l = 18" "q3 ?l = 33" "iqr ?l = 15"
      "valid_runs ?l = 30" "mean ?l = Num 25.5" "std_dev ?l = Num (pop_stddev (map real [11 ..< 41]))"
    by simp_all
  show ?thesis
    by (rule exI[of _ ?l]) (intro conjI run out win val band qs sd rest)
qed

theorem scenario_A_statistics_witness:
  "mset (rev scenario_A) = mset scenario_A \<and>
   calculate_statistics (rev scenario_A) 50 = Inr (Num 25.5, Num (pop_stddev (map real [11 ..< 41])))"
proof -
  have h: "mset (rev scenario_A) = mset scenario_A" by simp
  obtain l :: "real locals" where "calculate_statistics (rev scenario_A) 50 = Inr (mean l, std_dev l)"
      "mean l = Num 25.5" "std_dev l = Num (pop_stddev (map real [11 ..< 41]))"
    using scenario_A_statistics[OF h] by blast
  then show ?thesis using h by simp
qed

text \<open>
  The claim as stated gives the standard deviation as approximately 8.654. On scenario A
  in increasing order the result is \<open>sqrt (899 / 12)\<close>, which is more than 0.001 away
  from 8.654.
\<close>

theorem scenario_A_stddev_counterexample:
  "calculate_statistics scenario_A 50 = Inr (Num 25.5, Num (sqrt (899 / 12))) \<and>
   \<not> \<bar>sqrt (899 / 12) - 8.654\<bar> \<le> 0.001"
proof -
  have "calculate_statistics scenario_A 50 = Inr (Num 25.5, Num (sqrt (899 / 12)))"
    unfolding calculate_statistics_def scenario_A_locals[OF refl] outputs_def window_A_stddev
    by simp
  moreover have "\<not> \<bar>sqrt (899 / 12) - 8.654\<bar> \<le> 0.001"
    using sqrt_899_12(1) by simp
  ultimately show ?thesis by simp
qed

section \<open>Scenario B\<close>

lemma scenario_B_sort: "sort scenario_B = sorted_B"
proof -
  have "mset sorted_B = mset scenario_B"
    by (simp add: sorted_B_def scenario_B_def scenario_A_def upt_rec)
  moreover have "sorted sorted_B"
    by (simp add: sorted_B_def upt_rec)
  ultimately show ?thesis by (metis properties_for_sort)
qed

lemma sorted_B_quartiles: "sorted_B ! 17 = 18" "sorted_B ! 32 = 34" "sorted_B ! 49 = 100000"
  by (simp_all add: sorted_B_def upt_rec)

lemma sorted_B_window: "middle_window sorted_B 10 50 = window_B"
  by (simp add: middle_window_def sorted_B_def window_B_def upt_rec)

lemma window_B_valid:
  "valid_set (\<lambda>x. x) (18 - IQR_MULTIPLIER * (34 - 18)) (34 + IQR_MULTIPLIER * (34 - 18)) window_B = window_B"
  by (simp add: valid_set_def IQR_MULTIPLIER_def window_B_def)

lemma window_B_sum: "sum_list window_B = 780" "length window_B = 30"
  by (simp_all add: window_B_def)

lemma window_B_squares: "(\<Sum>x\<leftarrow>window_B. (x - 26) * (x - 26)) = 2480"
  by (simp add: window_B_def)

lemma window_B_stats: "pop_mean window_B = 26" "pop_stddev window_B = sqrt (248 / 3)"
proof -
  show pm: "pop_mean window_B = 26" by (simp add: pop_mean_def window_B_sum)
  show "pop_stddev window_B = sqrt (248 / 3)"
    unfolding pop_stddev_def pm window_B_squares window_B_sum by simp
qed

lemma outlier_stats:
  "pop_mean (window_B @ [100000]) = 100780 / 31"
  "(\<Sum>x\<leftarrow>window_B @ [100000]. (x - 100780 / 31) * (x - 100780 / 31)) = 299844097160 / 31"
proof -
  show "pop_mean (window_B @ [100000]) = 100780 / 31"
    by (simp add: pop_mean_def window_B_sum)
  show "(\<Sum>x\<leftarrow>window_B @ [100000]. (x - 100780 / 31) * (x - 100780 / 31)) = 299844097160 / 31"
    by (simp add: window_B_def)
qed


lemma scenario_B_locals:
  "calculate_statistics_locals (\<lambda>x. x) IGNORE_PERCENTAGE IQR_MULTIPLIER scenario_B 50 =
     Inr \<lparr> ignore_runs = 10, effective_runs = 30, sorted_times = sorted_B,
           q1 = 18, q3 = 34, iqr = 16, sum_valid = 780, valid_runs = 30,
           mean = Num 26, sum_sq_diff = Num 2480,
           std_dev = Num (pop_stddev window_B) \<rparr>"
proof -
  have n: "length scenario_B = 50" by (simp add: scenario_B_def scenario_A_length)
  have len: "(50::nat) \<le> length scenario_B" using n by simp
  have srt: "sorted_B = sort (take 50 scenario_B)" using n scenario_B_sort by simp
  have ig: "(10::int) = trunc (real 50 * IGNORE_PERCENTAGE)"
    by (simp add: trunc_def IGNORE_PERCENTAGE_def)
  have p1: "(0::int) \<le> 10" and p2: "(30::int) = int 50 - 2 * 10" and p3: "(1::int) \<le> 30"
    by simp_all
  have qa: "(18::real) = sorted_B ! nat (10 + 30 div 4)"
    by (simp add: sorted_B_quartiles)
  have qb: "(34::real) = sorted_B ! nat (10 + 3 * 30 div 4)"
    by (simp add: sorted_B_quartiles)
  have vs: "window_B =
      valid_set (\<lambda>x. x) (18 - IQR_MULTIPLIER * (34 - 18)) (34 + IQR_MULTIPLIER * (34 - 18))
        (middle_window sorted_B 10 50)"
    by (simp only: sorted_B_window window_B_valid)
  have mu: "(26 :: real) = sum_list window_B / real (length window_B)"
    by (simp add: window_B_sum)
  note e = calculate_statistics_locals_eq[where conv = "\<lambda>x. x" and k = IQR_MULTIPLIER,
      OF len ig p1 p2 p3 srt qa qb vs mu]
  have ne: "window_B \<noteq> []" using window_B_sum(2) by auto
  show ?thesis
    unfolding e window_B_sum window_B_squares window_B_stats using ne by simp
qed

section \<open>Claim C2: scenario B\<close>

text \<open>
  C2 (as amended). For scenario A with the value 26 replaced by 100000, with \<open>N = 50\<close>,
  the ignore fraction 0.2 and the IQR multiplier 1.5, \<open>calculate_statistics\<close> excludes
  that value: after the sort it is at position 49, outside the head/tail window
  \<open>sorted[10..39]\<close>, so it is not among the valid values. The window is 11 to 25 and 27
  to 41, all 30 of its values are valid, the mean is 26, strictly less than the mean of
  the valid values with the outlier added, and the standard deviation is lower than that
  of the valid values with the outlier added.
\<close>

theorem scenario_B_statistics:
  "\<exists>l. calculate_statistics_locals (\<lambda>x. x) IGNORE_PERCENTAGE IQR_MULTIPLIER scenario_B 50 = Inr l
    \<and> calculate_statistics scenario_B 50 = Inr (mean l, std_dev l)
    \<and> sorted_times l ! 49 = 100000
    \<and> 100000 \<notin> set (middle_window (sorted_times l) (ignore_runs l) 50)
    \<and> valid_values (\<lambda>x. x) IQR_MULTIPLIER l 50 = window_B
    \<and> 100000 \<notin> set (valid_values (\<lambda>x. x) IQR_MULTIPLIER l 50)
    \<and> valid_runs l = 30
    \<and> mean l = Num 26
    \<and> 26 < pop_mean (window_B @ [100000])
    \<and> std_dev l = Num (pop_stddev window_B)
    \<and> pop_stddev window_B < pop_stddev (window_B @ [100000])"
proof -
  let ?l = "\<lparr> ignore_runs = 10, effective_runs = 30, sorted_times = sorted_B,
           q1 = 18, q3 = 34, iqr = 16, sum_valid = 780, valid_runs = 30,
           mean = Num 26, sum_sq_diff = Num 2480,
           std_dev = Num (pop_stddev window_B) \<rparr>"
  have run: "calculate_statistics_locals (\<lambda>x. x) IGNORE_PERCENTAGE IQR_MULTIPLIER scenario_B 50 = Inr ?l"
    by (rule scenario_B_locals)
  have out: "calculate_statistics scenario_B 50 = Inr (mean ?l, std_dev ?l)"
    unfolding calculate_statistics_def run outputs_def by simp
  have pos: "sorted_times ?l ! 49 = 100000"
    by (simp add: sorted_B_quartiles)
  have notin: "100000 \<notin> set window_B"
    by (simp add: window_B_def)
  have win: "100000 \<notin> set (middle_window (sorted_times ?l) (ignore_runs ?l) 50)"
    using notin sorted_B_window by simp
  have val: "valid_values (\<lambda>x. x) IQR_MULTIPLIER ?l 50 = window_B"
    unfolding valid_values_def using window_B_valid sorted_B_window by simp
  have val_notin: "100000 \<notin> set (valid_values (\<lambda>x. x) IQR_MULTIPLIER ?l 50)"
    unfolding val by (rule notin)
  have m: "26 < pop_mean (window_B @ [100000])"
    unfolding outlier_stats by simp
  have "pop_stddev (window_B @ [100000]) = sqrt (299844097160 / 31 / 31)"
    unfolding pop_stddev_def outlier_stats by (simp add: window_B_sum)
  then have s: "pop_stddev window_B < pop_stddev (window_B @ [100000])"
    unfolding window_B_stats by simp
  have rest: "valid_runs ?l = 30" "mean ?l = Num 26" "std_dev ?l = Num (pop_stddev window_B)"
    by simp_all
  show ?thesis
    by (rule exI[of _ ?l]) (intro conjI run out pos win val val_notin m s rest)
qed

text \<open>
  The claim as stated has the outlier inside the head/tail window and 29 valid values.
  The run has 30 valid values, none of them the outlier.
\<close>

theorem scenario_B_counterexample:
  "calculate_statistics_locals (\<lambda>x. x) IGNORE_PERCENTAGE IQR_MULTIPLIER scenario_B 50 =
     Inr \<lparr> ignore_runs = 10, effective_runs = 30, sorted_times = sorted_B,
           q1 = 18, q3 = 34, iqr = 16, sum_valid = 780, valid_runs = 30,
           mean = Num 26, sum_sq_diff = Num 2480,
           std_dev = Num (sqrt (248 / 3)) \<rparr>
   \<and> 100000 \<notin> set (middle_window sorted_B 10 50)"
proof -
  have "100000 \<notin> set window_B" by (simp add: window_B_def)
  then show ?thesis
    using scenario_B_locals sorted_B_window window_B_stats(2) by simp
qed

section \<open>The value at the Q1 index is always valid\<close>

lemma middle_window_nth:
  assumes "0 \<le> ig" "int j < int n - 2 * ig" "length a = n"
  shows "j < length (middle_window a ig n)"
    and "middle_window a ig n ! j = a ! (nat ig + j)"
proof -
  have "nat ig + nat (int n - 2 * ig) \<le> n" using assms by linarith
  then have len: "length (middle_window a ig n) = nat (int n - 2 * ig)"
    using assms(3) by (simp add: middle_window_def)
  show j: "j < length (middle_window a ig n)" using assms(2) len by linarith
  have "j < nat (int n - 2 * ig)" using assms(2) by linarith
  moreover have "nat ig + j \<le> length a" using assms by linarith
  ultimately show "middle_window a ig n ! j = a ! (nat ig + j)"
    by (simp add: middle_window_def)
qed

lemma q1_in_valid_set:
  fixes conv :: "'a::linorder \<Rightarrow> real"
  assumes mono: "mono conv" and k: "0 \<le> k" and ig: "0 \<le> ig"
    and ef: "ef = int n - 2 * ig" "1 \<le> ef"
    and srt: "sorted srt" "length srt = n"
    and qa: "qa = conv (srt ! nat (ig + ef div 4))"
    and qb: "qb = conv (srt ! nat (ig + 3 * ef div 4))"
  shows "qa \<le> qb"
    and "qa \<in> set (valid_set conv (qa - k * (qb - qa)) (qb + k * (qb - qa)) (middle_window srt ig n))"
proof -
  have i: "nat (ig + ef div 4) \<le> nat (ig + 3 * ef div 4)" "nat (ig + 3 * ef div 4) < length srt"
    using ig ef srt(2) by auto
  then have "srt ! nat (ig + ef div 4) \<le> srt ! nat (ig + 3 * ef div 4)"
    using srt(1) by (simp add: sorted_nth_mono)
  then show le: "qa \<le> qb" using mono qa qb by (simp add: monoD)
  then have "0 \<le> k * (qb - qa)" using k by simp
  then have band: "qa - k * (qb - qa) \<le> qa" "qa \<le> qb + k * (qb - qa)" using le by simp_all
  have "ef div 4 < ef" "0 \<le> ef div 4" using ef(2) by presburger+
  then have j: "int (nat (ef div 4)) < int n - 2 * ig" using ef(1) by simp
  have "nat ig + nat (ef div 4) = nat (ig + ef div 4)" using ig ef by simp
  then have "middle_window srt ig n ! nat (ef div 4) = srt ! nat (ig + ef div 4)"
    using middle_window_nth(2)[OF ig j srt(2)] by simp
  then have "srt ! nat (ig + ef div 4) \<in> set (middle_window srt ig n)"
    using middle_window_nth(1)[OF ig j srt(2)] by (metis nth_mem)
  then have "qa \<in> set (map conv (middle_window srt ig n))" using qa by simp
  then show "qa \<in> set (valid_set conv (qa - k * (qb - qa)) (qb + k * (qb - qa)) (middle_window srt ig n))"
    using band by (simp add: valid_set_def)
qed

lemma valid_runs_positive_gen:
  fixes conv :: "'a::linorder \<Rightarrow> real"
  assumes mono: "mono conv" and k: "0 \<le> k"
    and len: "length samples = n"
    and ig: "ig = trunc (real n * ign)" "0 \<le> ig"
    and ef: "ef = int n - 2 * ig" "1 \<le> ef"
  shows "\<exists>l m s. calculate_statistics_locals conv ign k samples n = Inr l
    \<and> ignore_runs l = ig \<and> effective_runs l = ef
    \<and> ig \<le> ig + cdiv ef 4 \<and> ig + cdiv ef 4 < int n - ig
    \<and> q1 l = conv (sorted_times l ! nat (ig + cdiv ef 4))
    \<and> q1 l \<le> q3 l \<and> 0 \<le> iqr l
    \<and> q1 l - k * iqr l \<le> q1 l \<and> q1 l \<le> q3 l + k * iqr l
    \<and> q1 l \<in> set (valid_values conv k l n)
    \<and> 1 \<le> valid_runs l
    \<and> mean l = Num m \<and> std_dev l = Num s
    \<and> outputs (calculate_statistics_locals conv ign k samples n) = Inr (Num m, Num s)"
proof -
  define srt where "srt = sort (take n samples)"
  define qa where "qa = conv (srt ! nat (ig + ef div 4))"
  define qb where "qb = conv (srt ! nat (ig + 3 * ef div 4))"
  define vs where "vs = valid_set conv (qa - k * (qb - qa)) (qb + k * (qb - qa)) (middle_window srt ig n)"
  define mu where "mu = sum_list vs / real (length vs)"
  have len': "n \<le> length samples" using len by simp
  note e = calculate_statistics_locals_eq[OF len' ig ef srt_def qa_def qb_def vs_def mu_def]
  have s: "sorted srt" "length srt = n" using len by (simp_all add: srt_def)
  note q = q1_in_valid_set[OF mono k ig(2) ef s qa_def qb_def]
  have ne: "vs \<noteq> []" using q(2) unfolding vs_def by auto
  then have pos: "1 \<le> int (length vs)" by (cases vs) simp_all
  have kd: "0 \<le> k * (qb - qa)" using k q(1) by simp
  have cd: "cdiv ef 4 = ef div 4" using ef(2) by (simp add: cdiv_nonneg)
  have idx: "ig \<le> ig + ef div 4" "ig + ef div 4 < int n - ig" using ef by auto
  let ?sd = "sqrt ((\<Sum>x\<leftarrow>vs. (x - mu) * (x - mu)) / real (length vs))"
  let ?l = "\<lparr> ignore_runs = ig, effective_runs = ef, sorted_times = srt,
           q1 = qa, q3 = qb, iqr = qb - qa, sum_valid = sum_list vs,
           valid_runs = int (length vs),
           mean = (if vs = [] then NaN else Num mu),
           sum_sq_diff = Num (\<Sum>x\<leftarrow>vs. (x - mu) * (x - mu)),
           std_dev = (if vs = [] then NaN else Num ?sd) \<rparr>"
  have run: "calculate_statistics_locals conv ign k samples n = Inr ?l" by (rule e)
  have val: "valid_values conv k ?l n = vs"
    by (simp add: valid_values_def vs_def)
  have c1: "ignore_runs ?l = ig" "effective_runs ?l = ef" by simp_all
  have c2: "ig \<le> ig + cdiv ef 4" "ig + cdiv ef 4 < int n - ig" using idx cd by simp_all
  have c3: "q1 ?l = conv (sorted_times ?l ! nat (ig + cdiv ef 4))" by (simp add: cd qa_def)
  have c4: "q1 ?l \<le> q3 ?l" "0 \<le> iqr ?l" using q(1) by simp_all
  have c5: "q1 ?l - k * iqr ?l \<le> q1 ?l" "q1 ?l \<le> q3 ?l + k * iqr ?l" using kd q(1) by simp_all
  have c6: "q1 ?l \<in> set (valid_values conv k ?l n)"
    unfolding val using q(2) by (simp add: vs_def)
  have c7: "1 \<le> valid_runs ?l" using pos by simp
  have c8: "mean ?l = Num mu" "std_dev ?l = Num ?sd" using ne by simp_all
  have c9: "outputs (calculate_statistics_locals conv ign k samples n) = Inr (Num mu, Num ?sd)"
    unfolding run outputs_def using ne by simp
  show ?thesis
    apply (rule exI[of _ ?l], rule exI[of _ mu], rule exI[of _ ?sd])
    apply (intro conjI run c1 c2 c3 c4 c5 c6 c7 c8 c9)
    done
qed

lemma effective_runs_positive:
  "0 < n \<Longrightarrow> 1 \<le> int n - 2 * trunc (real n * IGNORE_PERCENTAGE)"
  unfolding trunc_ignore by presburger

lemma trunc_ignore_nonneg: "0 \<le> trunc (real n * IGNORE_PERCENTAGE)"
  unfolding trunc_ignore by simp

lemma IQR_MULTIPLIER_nonneg: "0 \<le> IQR_MULTIPLIER"
  by (simp add: IQR_MULTIPLIER_def)

section \<open>Claim C10: the value at the Q1 index is a valid sample\<close>



section \<open>Claim C9: the quartile indices are in bounds\<close>



section \<open>Claim C6: the mean lies between the smallest and the largest valid value\<close>




section \<open>Claim C4: no valid sample\<close>






section \<open>Claim C7: the results depend on the samples only\<close>

text \<open>
  C7. \<open>calculate_statistics\<close> is deterministic and keeps no state: two calls on the same
  samples with the same \<open>N\<close> give the same mean and standard deviation, whatever the
  result variables held before; the results are a function of the samples and \<open>N\<close>; the
  call leaves the samples as they are, so that calling again on the memory it leaves
  changes nothing.
\<close>

theorem calculate_statistics_deterministic:
  assumes "times_mem m1 = times_mem m2"
  shows "results (calculate_statistics_call n m1) = results (calculate_statistics_call n m2)
    \<and> results (calculate_statistics_call n m1) = calculate_statistics (times_mem m1) n
    \<and> (\<forall>r. calculate_statistics_call n m1 = Inr r \<longrightarrow>
          times_mem r = times_mem m1 \<and> calculate_statistics_call n r = Inr r)"
proof -
  have a: "results (calculate_statistics_call n m) = calculate_statistics (times_mem m) n" for m
    unfolding results_def calculate_statistics_call_def
    by (cases "calculate_statistics (times_mem m) n") (simp_all split: prod.splits)
  have b: "times_mem r = times_mem m1 \<and> calculate_statistics_call n r = Inr r"
    if r: "calculate_statistics_call n m1 = Inr r" for r
  proof (cases "calculate_statistics (times_mem m1) n")
    case (Inl e)
    then show ?thesis using r by (simp add: calculate_statistics_call_def)
  next
    case (Inr p)
    obtain m s where p: "p = (m, s)" by (cases p)
    have r': "r = m1\<lparr>mean_mem := m, std_dev_mem := s\<rparr>"
      using r Inr p by (simp add: calculate_statistics_call_def)
    then have t: "times_mem r = times_mem m1" by simp
    have "calculate_statistics_call n r = Inr (r\<lparr>mean_mem := m, std_dev_mem := s\<rparr>)"
      using Inr p t by (simp add: calculate_statistics_call_def)
    then show ?thesis using t r' by simp
  qed
  have c: "results (calculate_statistics_call n m1) = results (calculate_statistics_call n m2)"
    using a[of m1] a[of m2] assms by simp
  have d: "\<forall>r. calculate_statistics_call n m1 = Inr r \<longrightarrow>
          times_mem r = times_mem m1 \<and> calculate_statistics_call n r = Inr r"
    using b by blast
  show ?thesis
    by (intro conjI c a d)
qed

theorem calculate_statistics_deterministic_witness:
  "times_mem \<lparr>times_mem = scenario_A, mean_mem = NaN, std_dev_mem = PInf\<rparr>
     = times_mem \<lparr>times_mem = scenario_A, mean_mem = Num 3, std_dev_mem = Num 4\<rparr>
   \<and> results (calculate_statistics_call 50 \<lparr>times_mem = scenario_A, mean_mem = NaN, std_dev_mem = PInf\<rparr>)
       = Inr (Num 25.5, Num (sqrt (899 / 12)))
   \<and> results (calculate_statistics_call 50 \<lparr>times_mem = scenario_A, mean_mem = Num 3, std_dev_mem = Num 4\<rparr>)
       = Inr (Num 25.5, Num (sqrt (899 / 12)))"
proof -
  let ?m1 = "\<lparr>times_mem = scenario_A, mean_mem = NaN, std_dev_mem = PInf\<rparr>"
  let ?m2 = "\<lparr>times_mem = scenario_A, mean_mem = Num 3, std_dev_mem = Num 4\<rparr>"
  have h: "times_mem ?m1 = times_mem ?m2" by simp
  have c: "calculate_statistics scenario_A 50 = Inr (Num 25.5, Num (sqrt (899 / 12)))"
    unfolding calculate_statistics_def scenario_A_locals[OF refl] outputs_def window_A_stddev
    by simp
  from calculate_statistics_deterministic[OF h, of 50]
  have "results (calculate_statistics_call 50 ?m1) = results (calculate_statistics_call 50 ?m2)"
    and "results (calculate_statistics_call 50 ?m1) = calculate_statistics (times_mem ?m1) 50"
    by blast+
  then show ?thesis using c by (simp only: h[symmetric] memory.select_convs simp_thms)
qed

section \<open>The plot loops in closed form\<close>

declare max_loop.simps [simp del] xy_loop.simps [simp del]

lemma max_loop_foldl:
  "0 \<le> i \<Longrightarrow> stop \<le> int (length a) \<Longrightarrow>
   max_loop a i stop mx = Inr (foldl max mx (take (nat (stop - i)) (drop (nat i) a)))"
proof (induction a i stop mx rule: max_loop.induct)
  case (1 a i stop mx)
  show ?case
  proof (cases "i < stop")
    case True
    then have rd: "read a i = Inr (a ! nat i)"
      using 1(2,3) by (simp add: read_def)
    have n: "nat (stop - i) = Suc (nat (stop - (i + 1)))" using True by simp
    have lt: "nat i < length a" using True 1(2,3) by simp
    have d: "drop (nat i) a = a ! nat i # drop (nat (i + 1)) a"
      using lt 1(2) by (simp add: Cons_nth_drop_Suc nat_add_distrib)
    have m: "(if mx < a ! nat i then a ! nat i else mx) = max mx (a ! nat i)"
      by (auto simp: max_def)
    show ?thesis
      using True rd 1(1)[OF True rd] 1(2,3)
      by (subst max_loop.simps) (simp add: n d m)
  next
    case False
    then show ?thesis by (subst max_loop.simps) simp
  qed
qed

lemma map_upt_shift: "map f [0 ..< Suc k] = f 0 # map (\<lambda>j. f (Suc j)) [0 ..< k]"
proof -
  have "[0 ..< Suc k] = 0 # map Suc [0 ..< k]"
    by (simp add: upt_conv_Cons map_Suc_upt del: upt_Suc)
  then show ?thesis by (simp add: comp_def del: upt_Suc)
qed

lemma xy_loop_map:
  "0 \<le> i \<Longrightarrow> stop \<le> int (length a) \<Longrightarrow>
   xy_loop conv a i stop x y =
     Inr (x @ map (\<lambda>j. of_int (i + 1 + int j)) [0 ..< nat (stop - i)],
          y @ map conv (take (nat (stop - i)) (drop (nat i) a)))"
proof (induction conv a i stop x y rule: xy_loop.induct)
  case (1 conv a i stop x y)
  show ?case
  proof (cases "i < stop")
    case True
    then have rd: "read a i = Inr (a ! nat i)"
      using 1(2,3) by (simp add: read_def)
    have n: "nat (stop - i) = Suc (nat (stop - (i + 1)))" using True by simp
    have lt: "nat i < length a" using True 1(2,3) by simp
    have d: "drop (nat i) a = a ! nat i # drop (nat (i + 1)) a"
      using lt 1(2) by (simp add: Cons_nth_drop_Suc nat_add_distrib)
    show ?thesis
      using True rd 1(1)[OF True rd] 1(2,3)
      by (subst xy_loop.simps) (simp add: n d map_upt_shift del: upt_Suc)
  next
    case False
    then show ?thesis by (subst xy_loop.simps) simp
  qed
qed

lemma plot_cycles_eq:
  assumes "length cycles = NUM_ITERATIONS"
  shows "plot_cycles cycles =
     Inr \<lparr> xmin = 11, xmax = 40, ymin = 0,
           ymax = 1.1 * real (foldl max 0 (middle_window cycles 10 50)),
           line_x = map (\<lambda>j. real_of_int (11 + int j)) [0 ..< 30],
           line_y = map real (middle_window cycles 10 50) \<rparr>"
proof -
  have ig: "trunc (real NUM_ITERATIONS * IGNORE_PERCENTAGE) = 10"
    by (simp add: NUM_ITERATIONS_def trunc_def IGNORE_PERCENTAGE_def)
  have b: "(0::int) \<le> 10" "int NUM_ITERATIONS - 10 \<le> int (length cycles)"
    using assms by simp_all
  show ?thesis
    unfolding plot_cycles_def ig Let_def max_loop_foldl[OF b] xy_loop_map[OF b]
    by (simp add: NUM_ITERATIONS_def middle_window_def)
qed

lemma plot_times_eq:
  assumes "length samples = NUM_RUNS"
  shows "plot_times samples =
     Inr \<lparr> xmin = 71, xmax = 280, ymin = 0,
           ymax = 1.1 * foldl max 0 (map (\<lambda>t. t * 1000000) (middle_window samples 70 350)),
           line_x = map (\<lambda>j. real_of_int (71 + int j)) [0 ..< 210],
           line_y = map (\<lambda>t. t * 1000000) (middle_window samples 70 350) \<rparr>"
proof -
  have ig: "trunc (real NUM_RUNS * IGNORE_PERCENTAGE) = 70"
    by (simp add: NUM_RUNS_def trunc_def IGNORE_PERCENTAGE_def)
  have b: "(0::int) \<le> 70"
      "int NUM_RUNS - 70 \<le> int (length (map (\<lambda>t. t * 1000000) (take NUM_RUNS samples)))"
    using assms by simp_all
  have l: "\<not> length samples < NUM_RUNS" using assms by simp
  show ?thesis
    unfolding plot_times_def ig Let_def max_loop_foldl[OF b] xy_loop_map[OF b]
    using assms by (simp add: NUM_RUNS_def middle_window_def take_map drop_map)
qed

lemma cycles_B_length: "length cycles_B = 50"
  by (simp add: cycles_B_def)

lemma cycles_B_window: "middle_window cycles_B 10 50 = [11 ..< 26] @ [100000] @ [27 ..< 41]"
  by (simp add: cycles_B_def middle_window_def upt_rec)

lemma cycles_B_sort: "sort cycles_B = [1 ..< 26] @ [27 ..< 51] @ [100000]"
proof -
  have "mset ([1 ..< 26] @ [27 ..< 51] @ [100000]) = mset cycles_B"
    by (simp add: cycles_B_def)
  moreover have "sorted ([1 ..< 26] @ [27 ..< 51] @ [100000 :: nat])"
    by (simp add: sorted_append)
  ultimately show ?thesis by (metis properties_for_sort)
qed

lemma cycles_B_sorted_window: "middle_window (sort cycles_B) 10 50 = [11 ..< 26] @ [27 ..< 42]"
  by (simp add: cycles_B_sort middle_window_def upt_rec)

section \<open>Claim C5: what the chart shows\<close>

text \<open>
  C5 (as amended). The subsequence handed to the plotting library is the head/tail-trimmed
  middle window of the samples in arrival order, \<open>samples[ignoreCount .. N - ignoreCount - 1]\<close>
  (the runs \<open>ignoreCount + 1\<close> to \<open>N - ignoreCount\<close>, which are the values of the x axis),
  not of the sorted samples. No IQR filter is applied: every sample of these runs is in
  the chart (30 of 50 for \<open>plot_cycles\<close>, 210 of 350 for \<open>plot_times\<close>, which also
  converts to microseconds).
\<close>

theorem chart_is_arrival_order_window:
  assumes "length cycles = NUM_ITERATIONS" and "length samples = NUM_RUNS"
  shows "(\<exists>p. plot_cycles cycles = Inr p \<and> snd (report_curve cycles) = Inr p
        \<and> line_y p = map real (middle_window cycles 10 50)
        \<and> length (line_y p) = 30
        \<and> line_x p = map (\<lambda>j. real_of_int (11 + int j)) [0 ..< 30])
    \<and> (\<exists>p. plot_times samples = Inr p
        \<and> line_y p = map (\<lambda>t. t * 1000000) (middle_window samples 70 350)
        \<and> length (line_y p) = 210
        \<and> line_x p = map (\<lambda>j. real_of_int (71 + int j)) [0 ..< 210])"
proof -
  have l1: "length (middle_window cycles 10 50) = 30"
    using assms(1) by (simp add: middle_window_def NUM_ITERATIONS_def)
  have l2: "length (middle_window samples 70 350) = 210"
    using assms(2) by (simp add: middle_window_def NUM_RUNS_def)
  have "\<exists>p. plot_cycles cycles = Inr p \<and> snd (report_curve cycles) = Inr p
        \<and> line_y p = map real (middle_window cycles 10 50)
        \<and> length (line_y p) = 30
        \<and> line_x p = map (\<lambda>j. real_of_int (11 + int j)) [0 ..< 30]"
    unfolding report_curve_def plot_cycles_eq[OF assms(1)] using l1
    by (intro exI conjI) (rule refl, simp_all del: upt_Suc)
  moreover have "\<exists>p. plot_times samples = Inr p
        \<and> line_y p = map (\<lambda>t. t * 1000000) (middle_window samples 70 350)
        \<and> length (line_y p) = 210
        \<and> line_x p = map (\<lambda>j. real_of_int (71 + int j)) [0 ..< 210]"
    unfolding plot_times_eq[OF assms(2)] using l2
    by (intro exI conjI) (rule refl, simp_all del: upt_Suc)
  ultimately show ?thesis by (rule conjI)
qed

theorem chart_is_arrival_order_window_witness:
  "length cycles_B = NUM_ITERATIONS \<and> length (map real [0 ..< 350]) = NUM_RUNS
   \<and> (\<exists>p. plot_cycles cycles_B = Inr p
        \<and> line_y p = map real ([11 ..< 26] @ [100000] @ [27 ..< 41]))"
proof -
  have h1: "length cycles_B = NUM_ITERATIONS"
    by (simp add: cycles_B_length NUM_ITERATIONS_def)
  have h2: "length (map real [0 ..< 350]) = NUM_RUNS"
    by (simp add: NUM_RUNS_def)
  obtain p where "plot_cycles cycles_B = Inr p" "line_y p = map real (middle_window cycles_B 10 50)"
    using chart_is_arrival_order_window[OF h1 h2] by blast
  then show ?thesis
    using h1 h2 unfolding cycles_B_window by blast
qed

text \<open>
  The claim as stated has the chart show the window of the sorted samples. For the cycle
  counts of scenario B in arrival order the chart contains the outlier 100000 (run 26),
  which is not in the window of the sorted samples.
\<close>

theorem chart_counterexample:
  "plot_cycles cycles_B =
     Inr \<lparr> xmin = 11, xmax = 40, ymin = 0, ymax = 110000,
           line_x = map (\<lambda>j. real_of_int (11 + int j)) [0 ..< 30],
           line_y = map real ([11 ..< 26] @ [100000] @ [27 ..< 41]) \<rparr>
   \<and> map real (middle_window (sort cycles_B) 10 50) = map real ([11 ..< 26] @ [27 ..< 42])
   \<and> 100000 \<in> set (map real ([11 ..< 26] @ [100000] @ [27 ..< 41]))
   \<and> 100000 \<notin> set (map real ([11 ..< 26] @ [27 ..< 42]))"
proof -
  have h1: "length cycles_B = NUM_ITERATIONS"
    by (simp add: cycles_B_length NUM_ITERATIONS_def)
  have m: "foldl max 0 ([11 ..< 26] @ [100000] @ [27 ..< 41]) = (100000::nat)"
    by (simp add: upt_rec)
  have a: "plot_cycles cycles_B =
     Inr \<lparr> xmin = 11, xmax = 40, ymin = 0, ymax = 110000,
           line_x = map (\<lambda>j. real_of_int (11 + int j)) [0 ..< 30],
           line_y = map real ([11 ..< 26] @ [100000] @ [27 ..< 41]) \<rparr>"
    unfolding plot_cycles_eq[OF h1] cycles_B_window m by simp
  have b: "map real (middle_window (sort cycles_B) 10 50) = map real ([11 ..< 26] @ [27 ..< 42])"
    unfolding cycles_B_sorted_window by (rule refl)
  have c: "100000 \<in> set (map real ([11 ..< 26] @ [100000] @ [27 ..< 41]))" by simp
  have d: "100000 \<notin> set (map real ([11 ..< 26] @ [27 ..< 42]))" by auto
  show ?thesis by (intro conjI a b c d)
qed

section \<open>The sign and verify loops\<close>

declare sign_verify_runs.simps [simp del] main_algorithms.simps [simp del]

lemma sign_xml_cases:
  "sign_xml prov i j = Inl c \<Longrightarrow> c = EXIT_FAILURE"
  "verify_signature prov i j = Inl c \<Longrightarrow> c = EXIT_FAILURE"
  by (auto simp: sign_xml_def verify_signature_def split: if_splits)

lemma verify_fails: "verify_final prov i j \<noteq> 1 \<Longrightarrow> verify_signature prov i j = Inl EXIT_FAILURE"
  by (simp add: verify_signature_def)

text \<open>The inner loop of an algorithm before the fatal one.\<close>

lemma sign_verify_runs_earlier:
  assumes "a < i" and "\<forall>e \<in> set tr. allowed i j0 e"
    and "sign_verify_runs prov a j st vt tr = (tr', r)"
  shows "(\<forall>e \<in> set tr'. allowed i j0 e) \<and>
    (case r of Inl c \<Rightarrow> c = EXIT_FAILURE
     | Inr (st', vt') \<Rightarrow> length st' = length st + (NUM_RUNS - j)
         \<and> length vt' = length vt + (NUM_RUNS - j))"
  using assms
proof (induction prov a j st vt tr rule: sign_verify_runs.induct)
  case (1 prov a j st vt tr)
  show ?case
  proof (cases "j < NUM_RUNS")
    case False
    then show ?thesis using 1(3,4) by (subst (asm) sign_verify_runs.simps) auto
  next
    case True
    show ?thesis
    proof (cases "sign_xml prov a j")
      case (Inl c)
      then show ?thesis
        using True 1(2,3,4) sign_xml_cases(1)[OF Inl]
        by (subst (asm) sign_verify_runs.simps) auto
    next
      case s: (Inr s)
      show ?thesis
      proof (cases "verify_signature prov a j")
        case (Inl c)
        then show ?thesis
          using True s 1(2,3,4) sign_xml_cases(2)[OF Inl]
          by (subst (asm) sign_verify_runs.simps) auto
      next
        case v: (Inr v)
        have al: "\<forall>e \<in> set (tr @ [SignCall a j, VerifyCall a j]). allowed i j0 e"
          using 1(2,3) by simp
        have rec: "sign_verify_runs prov a (j + 1) (st @ [s]) (vt @ [v])
                     (tr @ [SignCall a j, VerifyCall a j]) = (tr', r)"
          using True s v 1(4) by (subst (asm) sign_verify_runs.simps) simp
        show ?thesis
          using 1(1)[OF True s v 1(2) al rec] True
          by (auto split: sum.splits)
      qed
    qed
  qed
qed

text \<open>The inner loop of the fatal algorithm.\<close>

lemma sign_verify_runs_fatal:
  assumes "j \<le> j0" and "j0 < NUM_RUNS" and "verify_final prov i j0 \<noteq> 1"
    and "\<forall>e \<in> set tr. allowed i j0 e"
  shows "\<exists>tr'. sign_verify_runs prov i j st vt tr = (tr', Inl EXIT_FAILURE)
    \<and> (\<forall>e \<in> set tr'. allowed i j0 e)"
  using assms
proof (induction prov i j st vt tr rule: sign_verify_runs.induct)
  case (1 prov i j st vt tr)
  have lt: "j < NUM_RUNS" using 1(2,3) by simp
  show ?case
  proof (cases "sign_xml prov i j")
    case (Inl c)
    then show ?thesis
      using lt 1(2,5) sign_xml_cases(1)[OF Inl]
      by (subst sign_verify_runs.simps) simp
  next
    case s: (Inr s)
    show ?thesis
    proof (cases "verify_signature prov i j")
      case (Inl c)
      then show ?thesis
        using lt s 1(2,5) sign_xml_cases(2)[OF Inl]
        by (subst sign_verify_runs.simps) simp
    next
      case v: (Inr v)
      have "j \<noteq> j0" using v verify_fails[OF 1(4)] by auto
      then have le: "j + 1 \<le> j0" using 1(2) by simp
      have al: "\<forall>e \<in> set (tr @ [SignCall i j, VerifyCall i j]). allowed i j0 e"
        using 1(2,5) by simp
      show ?thesis
        using 1(1)[OF lt s v le 1(3) 1(4) al] lt s v
        by (subst sign_verify_runs.simps) simp
    qed
  qed
qed

text \<open>When the verification of run \<open>j0\<close> is the first call that fails.\<close>

lemma sign_verify_runs_first_failure:
  assumes "j \<le> j0" and "j0 < NUM_RUNS" and "verify_final prov i j0 \<noteq> 1"
    and "\<forall>b \<le> j0. sign_final prov i b \<noteq> 0"
    and "\<forall>b < j0. verify_final prov i b = 1"
  shows "sign_verify_runs prov i j st vt tr = (tr @ calls i j (Suc j0), Inl EXIT_FAILURE)"
  using assms
proof (induction prov i j st vt tr rule: sign_verify_runs.induct)
  case (1 prov i j st vt tr)
  have lt: "j < NUM_RUNS" using 1(2,3) by simp
  have s: "sign_xml prov i j = Inr (sign_time prov i j)"
    using 1(2,5) by (simp add: sign_xml_def)
  have c: "calls i j (Suc j0) = [SignCall i j, VerifyCall i j] @ calls i (j + 1) (Suc j0)"
    using 1(2) by (simp add: calls_def upt_conv_Cons del: upt_Suc)
  show ?case
  proof (cases "j = j0")
    case True
    have "calls i (j + 1) (Suc j0) = []" using True by (simp add: calls_def)
    then show ?thesis
      using lt s verify_fails[OF 1(4)] True c
      by (subst sign_verify_runs.simps) simp
  next
    case False
    then have le: "j + 1 \<le> j0" and jl: "j < j0" using 1(2) by simp_all
    have v: "verify_signature prov i j = Inr (verify_time prov i j)"
      using jl 1(6) by (simp add: verify_signature_def)
    show ?thesis
      using 1(1)[OF lt s v le 1(3) 1(4) 1(5) 1(6)] lt s v c
      by (subst sign_verify_runs.simps) simp
  qed
qed

lemma calculate_statistics_Inr:
  assumes "length samples = NUM_RUNS"
  shows "\<exists>r. calculate_statistics samples NUM_RUNS = Inr r"
proof -
  have m1: "mono (\<lambda>x::real. x)" by (simp add: mono_def)
  have "0 < NUM_RUNS" by (simp add: NUM_RUNS_def)
  note a = valid_runs_positive_gen[OF m1 IQR_MULTIPLIER_nonneg assms refl trunc_ignore_nonneg refl
      effective_runs_positive[OF this]]
  then show ?thesis unfolding calculate_statistics_def by blast
qed

lemma main_algorithms_fatal:
  assumes "i0 \<le> i" and "i < num_algorithms" and "j0 < NUM_RUNS"
    and "verify_final prov i j0 \<noteq> 1"
    and "\<forall>e \<in> set tr. allowed i j0 e"
  shows "snd (main_algorithms prov i0 tr) = Exited EXIT_FAILURE
    \<and> (\<forall>e \<in> set (fst (main_algorithms prov i0 tr)). allowed i j0 e)"
  using assms
proof (induction prov i0 tr rule: main_algorithms.induct)
  case (1 prov i0 tr)
  have lt: "i0 < num_algorithms" using 1(2,3) by simp
  show ?case
  proof (cases "i0 = i")
    case True
    obtain tr' where f: "sign_verify_runs prov i 0 [] [] tr = (tr', Inl EXIT_FAILURE)"
        "\<forall>e \<in> set tr'. allowed i j0 e"
      using sign_verify_runs_fatal[OF _ 1(4) 1(5) 1(6), of 0] by blast
    show ?thesis
      using lt True f by (subst (1 2) main_algorithms.simps) simp
  next
    case False
    then have a: "i0 < i" and le: "i0 + 1 \<le> i" using 1(2) by simp_all
    obtain tr' r where run: "sign_verify_runs prov i0 0 [] [] tr = (tr', r)"
      by (cases "sign_verify_runs prov i0 0 [] [] tr")
    note e = sign_verify_runs_earlier[OF a 1(6) run]
    show ?thesis
    proof (cases r)
      case (Inl c)
      then show ?thesis
        using lt run e by (subst (1 2) main_algorithms.simps) simp
    next
      case (Inr p)
      obtain st vt where p: "p = (st, vt)" by (cases p)
      have len: "length st = NUM_RUNS" "length vt = NUM_RUNS"
        using e Inr p by simp_all
      obtain rs where rs: "calculate_statistics st NUM_RUNS = Inr rs"
        using calculate_statistics_Inr[OF len(1)] by blast
      obtain rv where rv: "calculate_statistics vt NUM_RUNS = Inr rv"
        using calculate_statistics_Inr[OF len(2)] by blast
      let ?tr = "tr' @ [Summary i0 (summary_line rs) (summary_line rv),
                        Chart i0 ''signing'' (plot_times st),
                        Chart i0 ''verifying'' (plot_times vt)]"
      have al: "\<forall>e \<in> set ?tr. allowed i j0 e" using e a by simp
      have run': "sign_verify_runs prov i0 0 [] [] tr = (tr', Inr (st, vt))"
        using run Inr p by simp
      have step: "main_algorithms prov i0 tr = main_algorithms prov (i0 + 1) ?tr"
        using lt run' rs rv by (subst main_algorithms.simps) simp
      have "snd (main_algorithms prov (i0 + 1) ?tr) = Exited EXIT_FAILURE
        \<and> (\<forall>e \<in> set (fst (main_algorithms prov (i0 + 1) ?tr)). allowed i j0 e)"
        using 1(1)[OF lt run[symmetric] Inr p[symmetric] rs rv le 1(3) 1(4) 1(5) al] .
      then show ?thesis unfolding step .
    qed
  qed
qed

section \<open>Claim C8: a failed verification is fatal\<close>

text \<open>
  C8. If the provider's verification does not return 1 (it returns 0 for a mismatch or a
  negative value for an error) in run \<open>j\<close> of algorithm \<open>i\<close>, then \<open>verify_signature\<close>
  exits, the whole process ends with \<open>EXIT_FAILURE\<close>, and everything observed lies before
  that point: no provider call after run \<open>j\<close> of algorithm \<open>i\<close>, and no summary and no
  chart for algorithm \<open>i\<close> or a later one. When that verification is the first call of
  algorithm \<open>i\<close> that fails, the loop reaching algorithm \<open>i\<close> adds exactly one signing and
  one verification per run up to run \<open>j\<close> and then exits: no run is retried or skipped.
\<close>

theorem verify_failure_is_fatal:
  assumes "i < num_algorithms" and "j < NUM_RUNS" and "verify_final prov i j \<noteq> 1"
  shows "verify_signature prov i j = Inl EXIT_FAILURE
    \<and> snd (main_algorithms prov 0 []) = Exited EXIT_FAILURE
    \<and> (\<forall>e \<in> set (fst (main_algorithms prov 0 [])). allowed i j e)
    \<and> ((\<forall>b \<le> j. sign_final prov i b \<noteq> 0) \<and> (\<forall>b < j. verify_final prov i b = 1) \<longrightarrow>
         (\<forall>tr. main_algorithms prov i tr = (tr @ calls i 0 (Suc j), Exited EXIT_FAILURE)))"
proof -
  have a: "verify_signature prov i j = Inl EXIT_FAILURE"
    using assms(3) by (rule verify_fails)
  have e: "\<forall>e \<in> set []. allowed i j e" by simp
  note m = main_algorithms_fatal[OF _ assms e, of 0]
  have b: "snd (main_algorithms prov 0 []) = Exited EXIT_FAILURE"
    and c: "\<forall>e \<in> set (fst (main_algorithms prov 0 [])). allowed i j e"
    using m by simp_all
  have d: "main_algorithms prov i tr = (tr @ calls i 0 (Suc j), Exited EXIT_FAILURE)"
    if "\<forall>b \<le> j. sign_final prov i b \<noteq> 0" and "\<forall>b < j. verify_final prov i b = 1" for tr
    using sign_verify_runs_first_failure[OF _ assms(2,3) that, of 0 "[]" "[]" tr] assms(1)
    by (subst main_algorithms.simps) simp
  have d': "(\<forall>b \<le> j. sign_final prov i b \<noteq> 0) \<and> (\<forall>b < j. verify_final prov i b = 1) \<longrightarrow>
         (\<forall>tr. main_algorithms prov i tr = (tr @ calls i 0 (Suc j), Exited EXIT_FAILURE))"
    using d by blast
  show ?thesis by (intro conjI a b c d')
qed

theorem verify_failure_is_fatal_witness:
  "(0::nat) < num_algorithms \<and> (2::nat) < NUM_RUNS
   \<and> verify_final \<lparr> sign_final = (\<lambda>i j. 1), sign_time = (\<lambda>i j. 1),
        verify_final = (\<lambda>i j. if i = 0 \<and> j = 2 then 0 else 1), verify_time = (\<lambda>i j. 1) \<rparr> 0 2 \<noteq> 1
   \<and> main_algorithms \<lparr> sign_final = (\<lambda>i j. 1), sign_time = (\<lambda>i j. 1),
        verify_final = (\<lambda>i j. if i = 0 \<and> j = 2 then 0 else 1), verify_time = (\<lambda>i j. 1) \<rparr> 0 []
      = ([SignCall 0 0, VerifyCall 0 0, SignCall 0 1, VerifyCall 0 1, SignCall 0 2, VerifyCall 0 2],
         Exited EXIT_FAILURE)"
proof -
  let ?p = "\<lparr> sign_final = (\<lambda>i j. 1), sign_time = (\<lambda>i j. 1),
        verify_final = (\<lambda>i j. if i = 0 \<and> j = 2 then 0 else 1), verify_time = (\<lambda>i j. 1) \<rparr>"
  have h1: "(0::nat) < num_algorithms" by (simp add: num_algorithms_def)
  have h2: "(2::nat) < NUM_RUNS" by (simp add: NUM_RUNS_def)
  have h3: "verify_final ?p 0 2 \<noteq> 1" by simp
  have h4: "(\<forall>b \<le> 2. sign_final ?p 0 b \<noteq> 0) \<and> (\<forall>b < 2. verify_final ?p 0 b = 1)" by simp
  have c: "calls 0 0 (Suc 2) =
      [SignCall 0 0, VerifyCall 0 0, SignCall 0 1, VerifyCall 0 1, SignCall 0 2, VerifyCall 0 2]"
    by (simp add: calls_def upt_rec)
  from verify_failure_is_fatal[OF h1 h2 h3] h4
  have "main_algorithms ?p 0 [] = ([] @ calls 0 0 (Suc 2), Exited EXIT_FAILURE)"
    by blast
  then show ?thesis using h1 h2 h3 c by simp
qed

end
